theory Spec2Isabelle
  imports Main "HOL-Library.Sublist" "HOL-Library.Char_ord" "HOL-Library.List_Lexorder"
begin

section \<open>Path algebra (src/utils/path.ts)\<close>

text \<open>
  Paths are JavaScript strings, modelled as \<open>string\<close> (a list of characters).
  \<open>String.prototype.split("/")\<close> always yields at least one part; the parts of the
  empty string are the single empty part.
\<close>

fun split_slash :: "string \<Rightarrow> string list" where
  "split_slash [] = [[]]"
| "split_slash (c # cs) =
     (if c = CHR ''/'' then [] # split_slash cs
      else (case split_slash cs of [] \<Rightarrow> [[c]] | w # ws \<Rightarrow> (c # w) # ws))"

text \<open>\<open>Array.prototype.join("/")\<close>.\<close>

fun join_slash :: "string list \<Rightarrow> string" where
  "join_slash [] = []"
| "join_slash [w] = w"
| "join_slash (w # v # ws) = w @ CHR ''/'' # join_slash (v # ws)"

text \<open>
  \<open>replace(/\/+/g, "/")\<close> and \<open>replace(/\/\/+/g, "/")\<close>: every maximal run of
  slashes becomes one slash (a run of length one is unchanged by either pattern).
\<close>

fun collapse_slashes :: "string \<Rightarrow> string" where
  "collapse_slashes [] = []"
| "collapse_slashes [c] = [c]"
| "collapse_slashes (c # d # cs) =
     (if c = CHR ''/'' \<and> d = CHR ''/'' then collapse_slashes (d # cs)
      else c # collapse_slashes (d # cs))"

text \<open>\<open>replace(/\/$/, "")\<close>: one slash at the very end of the string is dropped.\<close>

definition strip_trailing_slash :: "string \<Rightarrow> string" where
  "strip_trailing_slash p = (if p \<noteq> [] \<and> last p = CHR ''/'' then butlast p else p)"

definition isAbsolute :: "string \<Rightarrow> bool" where
  "isAbsolute path = prefix ''/'' path"

definition isRelative :: "string \<Rightarrow> bool" where
  "isRelative path = (\<not> isAbsolute path)"

definition cleanPath :: "string \<Rightarrow> string" where
  "cleanPath path =
     (let p = strip_trailing_slash (collapse_slashes path) in if p = [] then ''/'' else p)"

text \<open>
  \<open>join(...segments)\<close>: the parts of all segments without the empty and the \<open>.\<close>
  parts; absolute when the first segment starts with a slash.
\<close>

definition Path_join :: "string list \<Rightarrow> string" where
  "Path_join segments =
     (let parts = filter (\<lambda>part. \<not> (part = [] \<or> part = ''.'')) (concat (map split_slash segments))
      in if segments \<noteq> [] \<and> prefix ''/'' (hd segments)
         then ''/'' @ join_slash parts else join_slash parts)"

definition Path_dirname :: "string \<Rightarrow> string" where
  "Path_dirname path =
     (let segments = butlast (split_slash path)
      in if length segments = 1 \<and> isAbsolute path then ''/''
         else if length segments = 0 then ''.''
         else cleanPath (join_slash segments))"

text \<open>The loop of \<open>resolve\<close> over the parts of the relative path; the stack grows at its end.\<close>

fun resolve_parts :: "string list \<Rightarrow> string list \<Rightarrow> string list" where
  "resolve_parts baseParts [] = baseParts"
| "resolve_parts baseParts (part # parts) =
     (if part = ''..''
      then resolve_parts (if length baseParts > 0 then butlast baseParts else baseParts) parts
      else if part \<noteq> ''.'' \<and> part \<noteq> []
      then resolve_parts (baseParts @ [part]) parts
      else resolve_parts baseParts parts)"

definition Path_resolve :: "string \<Rightarrow> string \<Rightarrow> string" where
  "Path_resolve basePath relativePath =
     (if isAbsolute relativePath then cleanPath relativePath
      else cleanPath (''/'' @ join_slash
             (resolve_parts (filter (\<lambda>part. length part > 0) (split_slash basePath))
                (split_slash relativePath))))"

text \<open>The \<open>while\<close> loop of \<open>relative\<close>: the common leading parts are dropped.\<close>

fun strip_common :: "string list \<Rightarrow> string list \<Rightarrow> string list \<times> string list" where
  "strip_common (f # fs) (t # ts) = (if f = t then strip_common fs ts else (f # fs, t # ts))"
| "strip_common fs ts = (fs, ts)"

definition Path_relative :: "string \<Rightarrow> string \<Rightarrow> string" where
  "Path_relative from to =
     (let (fromParts, toParts) =
            strip_common (filter (\<lambda>a. length a > 0) (split_slash (cleanPath from)))
                         (filter (\<lambda>a. length a > 0) (split_slash (cleanPath to)))
      in cleanPath (concat (replicate (length fromParts) ''../'') @ join_slash toParts))"

definition withinJail :: "string \<Rightarrow> string \<Rightarrow> bool" where
  "withinJail jail path = (if isRelative path then True else prefix jail path)"

text \<open>
  \<open>resolveWithinJail({jail, basePath, path})\<close>; the three fields of the argument
  object are the three arguments.
\<close>

definition resolveWithinJail :: "string \<Rightarrow> string \<Rightarrow> string \<Rightarrow> string" where
  "resolveWithinJail jail basePath path =
     (let resolvedPath = Path_resolve basePath path;
          finalPath = (if \<not> withinJail jail resolvedPath
                       then collapse_slashes (jail @ ''/'' @ resolvedPath)
                       else resolvedPath)
      in if finalPath = ''/'' then finalPath else strip_trailing_slash finalPath)"

text \<open>A string in which no two slashes are adjacent.\<close>

fun no_double_slash :: "string \<Rightarrow> bool" where
  "no_double_slash [] = True"
| "no_double_slash [c] = True"
| "no_double_slash (c # d # cs) = (\<not> (c = CHR ''/'' \<and> d = CHR ''/'') \<and> no_double_slash (d # cs))"

section \<open>The in-memory engine (MemoryFs)\<close>

text \<open>
  A \<open>Date\<close> is the instant it denotes, a natural number of milliseconds. Every
  \<open>new Date()\<close> of one call reads the clock value \<open>now\<close> that the model passes in.
\<close>

record StoreNodeTime =
  mtime :: "nat option"
  atime :: "nat option"
  ctime :: "nat option"
  btime :: "nat option"

text \<open>
  The tagged union \<open>FsNode = FsFileNode | FsDirNode\<close>; the tag is the constructor.
  The fields are, in this order, \<open>content\<close>, \<open>path\<close>, \<open>stats\<close> of a file and \<open>path\<close>,
  \<open>children\<close>, \<open>stats\<close> of a directory.
\<close>

datatype FsNode =
    FsFileNode string string StoreNodeTime
  | FsDirNode string "string list" StoreNodeTime

text \<open>\<open>node.path\<close>, \<open>node.stats\<close>, and assignments to the fields of \<open>node.stats\<close>.\<close>

fun node_path :: "FsNode \<Rightarrow> string" where
  "node_path (FsFileNode content p st) = p"
| "node_path (FsDirNode p children st) = p"

fun node_stats :: "FsNode \<Rightarrow> StoreNodeTime" where
  "node_stats (FsFileNode content p st) = st"
| "node_stats (FsDirNode p children st) = st"

fun set_stats :: "StoreNodeTime \<Rightarrow> FsNode \<Rightarrow> FsNode" where
  "set_stats st' (FsFileNode content p st) = FsFileNode content p st'"
| "set_stats st' (FsDirNode p children st) = FsDirNode p children st'"

text \<open>
  The type \<open>Fs\<close>. \<open>nodes\<close> is a JavaScript array: \<open>delete nodes[i]\<close> leaves a hole,
  written \<open>None\<close>, and the length stays. \<open>index\<close> is an object used as a dictionary.
\<close>

record Fs =
  version :: string
  nodes :: "FsNode option list"
  index :: "string \<rightharpoonup> nat"

record StoreContext =
  uri :: string
  jail :: string
  pwd :: string

text \<open>
  The option bags of \<open>write\<close>, \<open>mkdir\<close>, \<open>rm\<close> and \<open>rmdir\<close>; \<open>None\<close> is an
  absent field. \<open>rebuildIndexOpt\<close> is the field \<open>rebuildIndex\<close> of \<open>rm\<close>.
\<close>

record FsOptions =
  recursive :: "bool option"
  timestamp :: "nat option"
  rebuildIndexOpt :: "bool option"

datatype StoreErrCode =
    SYNTAX | SCHEMA | FILE_NOT_FOUND | FILE_EXISTS | DIR_EXISTS | NOT_A_DIR
  | PATH_NOT_FOUND | PATH_UNAVAILABLE | READ_ONLY | QUOTA_EXCEEDED | UNKNOWN

text \<open>
  What a call does: it returns a value (\<open>Ok\<close>; \<open>null\<close> for the operations that
  return \<open>StoreErr | null\<close>), returns a typed \<open>StoreErr\<close> (\<open>Err\<close>, only the code is
  kept), or throws (\<open>Thrown\<close>: a failed \<open>invariant\<close>). \<open>Diverged\<close> is the recursion of
  \<open>rm\<close> running out of the fuel the model gives it.
\<close>

datatype 'a outcome = Ok 'a | Err StoreErrCode | is_Thrown: Thrown | Diverged

text \<open>
  \<open>getNode\<close> yields \<open>null\<close> when the index has no entry, \<open>undefined\<close> when the entry
  points at a hole or past the end, and otherwise the node object, which the model
  names by its position in \<open>nodes\<close>.
\<close>

datatype lookup = Null | Undefined | Node nat FsNode

definition getNode :: "Fs \<Rightarrow> string \<Rightarrow> lookup" where
  "getNode fs p =
     (case index fs (Path_resolve ''/'' p) of
        None \<Rightarrow> Null
      | Some i \<Rightarrow>
          (if i < length (nodes fs)
           then (case nodes fs ! i of None \<Rightarrow> Undefined | Some n \<Rightarrow> Node i n)
           else Undefined))"

definition getParent :: "Fs \<Rightarrow> string \<Rightarrow> lookup" where
  "getParent fs p = getNode fs (Path_dirname (Path_resolve ''/'' p))"

text \<open>An assignment to a field of the node object at position \<open>i\<close>.\<close>

definition put_node :: "nat \<Rightarrow> FsNode \<Rightarrow> Fs \<Rightarrow> Fs" where
  "put_node i n fs = fs\<lparr>nodes := (nodes fs)[i := Some n]\<rparr>"

text \<open>
  \<open>rebuildIndex\<close>: the index is emptied; \<open>sort\<close> orders the nodes by path and moves
  the holes behind them; the loop then enters every node (\<open>index_entry\<close> is the
  assignment \<open>index[node.path] = i\<close>) and throws at the first hole.
  (For two nodes of one path the comparator is inconsistent and their order is the
  engine's; the model keeps their order.)
\<close>

definition index_entry :: "nat \<times> FsNode \<Rightarrow> (string \<rightharpoonup> nat) \<Rightarrow> (string \<rightharpoonup> nat)" where
  "index_entry e m = m(node_path (snd e) \<mapsto> fst e)"

definition rebuildIndex :: "Fs \<Rightarrow> unit outcome \<times> Fs" where
  "rebuildIndex fs =
     (let live = sort_key node_path (map the (filter (\<lambda>n. n \<noteq> None) (nodes fs)));
          holes = length (filter (\<lambda>n. n = None) (nodes fs));
          fs' = fs\<lparr>nodes := map Some live @ replicate holes None,
                   index := fold index_entry (enumerate 0 live) Map.empty\<rparr>
      in (if holes = 0 then Ok () else Thrown, fs'))"

text \<open>
  \<open>addNode\<close>; \<open>children.sort()\<close> is the default sort, by code units of the strings.
\<close>

definition addNode :: "FsNode \<Rightarrow> nat \<Rightarrow> bool \<Rightarrow> Fs \<Rightarrow> unit outcome \<times> Fs" where
  "addNode node ts rebuild fs =
     (let fs1 = fs\<lparr>index := (index fs)(node_path node \<mapsto> length (nodes fs)),
                   nodes := nodes fs @ [Some node]\<rparr>
      in case getNode fs1 (Path_dirname (node_path node)) of
           Node j (FsDirNode pp children pst) \<Rightarrow>
             (let fs2 = put_node j
                    (FsDirNode pp (sort (children @ [node_path node])) (pst\<lparr>mtime := Some ts\<rparr>)) fs1
              in if rebuild then rebuildIndex fs2 else (Ok (), fs2))
         | _ \<Rightarrow> (Thrown, fs1))"

definition MemoryFs_empty :: "string \<Rightarrow> nat \<Rightarrow> Fs" where
  "MemoryFs_empty root time =
     \<lparr>version = ''0.1'',
      nodes = [Some (FsDirNode ''/'' []
                 \<lparr>mtime = Some time, atime = Some time, ctime = Some time, btime = Some time\<rparr>)],
      index = [''/'' \<mapsto> 0]\<rparr>"

record StoreNodeStats =
  stat_atime :: nat
  stat_btime :: nat
  stat_ctime :: nat
  stat_mtime :: nat
  isFile :: bool
  isDirectory :: bool

definition or_now :: "nat option \<Rightarrow> nat \<Rightarrow> nat" where
  "or_now t now = (case t of Some v \<Rightarrow> v | None \<Rightarrow> now)"

definition MemoryFs_stats :: "StoreContext \<Rightarrow> string \<Rightarrow> nat \<Rightarrow> Fs \<Rightarrow> StoreNodeStats outcome" where
  "MemoryFs_stats ctx p now fs =
     (let resolvedPath = resolveWithinJail (jail ctx) (pwd ctx) p
      in case getNode fs resolvedPath of
           Node i node \<Rightarrow>
             Ok \<lparr>stat_atime = or_now (atime (node_stats node)) now,
                 stat_btime = or_now (btime (node_stats node)) now,
                 stat_ctime = or_now (ctime (node_stats node)) now,
                 stat_mtime = or_now (mtime (node_stats node)) now,
                 isFile = (case node of FsFileNode _ _ _ \<Rightarrow> True | _ \<Rightarrow> False),
                 isDirectory = (case node of FsDirNode _ _ _ \<Rightarrow> True | _ \<Rightarrow> False)\<rparr>
         | _ \<Rightarrow> Err PATH_NOT_FOUND)"

definition MemoryFs_read :: "StoreContext \<Rightarrow> string \<Rightarrow> nat \<Rightarrow> Fs \<Rightarrow> string outcome \<times> Fs" where
  "MemoryFs_read ctx filename now fs =
     (let resolvedPath = resolveWithinJail (jail ctx) (pwd ctx) filename
      in case getNode fs resolvedPath of
           Node i (FsFileNode content p st) \<Rightarrow>
             (let fs1 = put_node i (FsFileNode content p (st\<lparr>atime := Some now\<rparr>)) fs
              in case getNode fs1 (Path_dirname p) of
                   Node j parent \<Rightarrow>
                     (Ok content,
                      put_node j (set_stats ((node_stats parent)\<lparr>atime := Some now\<rparr>) parent) fs1)
                 | _ \<Rightarrow> (Thrown, fs1))
         | _ \<Rightarrow> (Err FILE_NOT_FOUND, fs))"

definition MemoryFs_readdir :: "StoreContext \<Rightarrow> string \<Rightarrow> Fs \<Rightarrow> string list outcome" where
  "MemoryFs_readdir ctx p fs =
     (let resolvedPath = resolveWithinJail (jail ctx) (pwd ctx) p
      in case getNode fs resolvedPath of
           Node i (FsDirNode dp children st) \<Rightarrow>
             Ok (map (\<lambda>child. Path_relative resolvedPath child) children)
         | Node i (FsFileNode content fp st) \<Rightarrow> Err NOT_A_DIR
         | _ \<Rightarrow> Err PATH_NOT_FOUND)"

text \<open>
  The argument \<open>stats\<close> of \<open>utimes\<close> is an object the caller builds. A field of it is
  absent (\<open>None\<close>), present with the value \<open>undefined\<close> (\<open>Some None\<close>), or present with
  a \<open>Date\<close> (\<open>Some (Some t)\<close>): the spread below copies every field that is present,
  whatever its value, and a field of \<open>node.stats\<close> that holds \<open>undefined\<close> reads like an
  absent one everywhere.
\<close>

record GivenTime =
  given_mtime :: "nat option option"
  given_atime :: "nat option option"
  given_ctime :: "nat option option"
  given_btime :: "nat option option"

text \<open>\<open>node.stats = { ...node.stats, ...stats }\<close>: the fields present replace the old ones.\<close>

definition merge_stats :: "StoreNodeTime \<Rightarrow> GivenTime \<Rightarrow> StoreNodeTime" where
  "merge_stats old new =
     \<lparr>mtime = (case given_mtime new of Some v \<Rightarrow> v | None \<Rightarrow> mtime old),
      atime = (case given_atime new of Some v \<Rightarrow> v | None \<Rightarrow> atime old),
      ctime = (case given_ctime new of Some v \<Rightarrow> v | None \<Rightarrow> ctime old),
      btime = (case given_btime new of Some v \<Rightarrow> v | None \<Rightarrow> btime old)\<rparr>"

definition MemoryFs_utimes :: "StoreContext \<Rightarrow> string \<Rightarrow> GivenTime \<Rightarrow> Fs \<Rightarrow> unit outcome \<times> Fs" where
  "MemoryFs_utimes ctx p st fs =
     (let resolvedPath = resolveWithinJail (jail ctx) (pwd ctx) p
      in case getNode fs resolvedPath of
           Node i node \<Rightarrow> (Ok (), put_node i (set_stats (merge_stats (node_stats node) st) node) fs)
         | _ \<Rightarrow> (Err PATH_NOT_FOUND, fs))"

text \<open>\<open>hasPathAvailable\<close> and \<open>getPaths\<close>: the loops over the parts of the path.\<close>

fun hasPathAvailable_loop :: "Fs \<Rightarrow> string \<Rightarrow> string list \<Rightarrow> bool" where
  "hasPathAvailable_loop fs cur [] = True"
| "hasPathAvailable_loop fs cur (part # parts) =
     (let cur' = Path_join [cur, part]
      in case getNode fs cur' of
           Node i (FsFileNode content fp st) \<Rightarrow> False
         | _ \<Rightarrow> hasPathAvailable_loop fs cur' parts)"

definition hasPathAvailable :: "Fs \<Rightarrow> string \<Rightarrow> bool" where
  "hasPathAvailable fs p = hasPathAvailable_loop fs ''/'' (split_slash p)"

fun getPaths_loop :: "string \<Rightarrow> string list \<Rightarrow> string list" where
  "getPaths_loop cur [] = []"
| "getPaths_loop cur (part # parts) =
     (let cur' = Path_join [cur, part] in cur' # getPaths_loop cur' parts)"

definition getPaths :: "string \<Rightarrow> string list" where
  "getPaths p = getPaths_loop ''/'' (split_slash (Path_resolve ''/'' p))"

definition fresh_stats :: "nat \<Rightarrow> StoreNodeTime" where
  "fresh_stats ts = \<lparr>mtime = Some ts, atime = Some ts, ctime = Some ts, btime = Some ts\<rparr>"

text \<open>The loop of the recursive \<open>mkdir\<close>; a throw of \<open>addNode\<close> ends it.\<close>

fun mkdir_loop :: "string list \<Rightarrow> nat \<Rightarrow> Fs \<Rightarrow> unit outcome \<times> Fs" where
  "mkdir_loop [] ts fs = (Ok (), fs)"
| "mkdir_loop (p # ps) ts fs =
     (if getNode fs p = Null
      then (case addNode (FsDirNode p [] (fresh_stats ts)) ts False fs of
              (Ok u, fs1) \<Rightarrow> mkdir_loop ps ts fs1
            | r \<Rightarrow> r)
      else mkdir_loop ps ts fs)"

definition MemoryFs_mkdir :: "StoreContext \<Rightarrow> string \<Rightarrow> FsOptions \<Rightarrow> nat \<Rightarrow> Fs \<Rightarrow> unit outcome \<times> Fs" where
  "MemoryFs_mkdir ctx p options now fs =
     (let resolvedPath = resolveWithinJail (jail ctx) (pwd ctx) p;
          ts = or_now (timestamp options) now;
          rec = (case recursive options of Some r \<Rightarrow> r | None \<Rightarrow> True)
      in case getNode fs resolvedPath of
           Node i (FsFileNode content fp st) \<Rightarrow> (Err FILE_EXISTS, fs)
         | Node i (FsDirNode dp children st) \<Rightarrow> (Ok (), fs)
         | _ \<Rightarrow>
             (if \<not> rec
              then (case getNode fs (Path_dirname resolvedPath) of
                      Node j (FsDirNode dp children st) \<Rightarrow>
                        addNode (FsDirNode resolvedPath [] (fresh_stats ts)) ts False fs
                    | _ \<Rightarrow> (Err PATH_UNAVAILABLE, fs))
              else if \<not> hasPathAvailable fs resolvedPath then (Err PATH_UNAVAILABLE, fs)
              else (case mkdir_loop (getPaths resolvedPath) ts fs of
                      (Ok u, fs1) \<Rightarrow> rebuildIndex fs1
                    | r \<Rightarrow> r)))"

definition MemoryFs_write ::
  "StoreContext \<Rightarrow> string \<Rightarrow> string \<Rightarrow> FsOptions \<Rightarrow> nat \<Rightarrow> Fs \<Rightarrow> unit outcome \<times> Fs" where
  "MemoryFs_write ctx p content options now fs =
     (let resolvedPath = resolveWithinJail (jail ctx) (pwd ctx) p;
          ts = or_now (timestamp options) now;
          rec = (case recursive options of Some r \<Rightarrow> r | None \<Rightarrow> True);
          add = addNode (FsFileNode content resolvedPath (fresh_stats ts)) ts False
      in case getNode fs resolvedPath of
           Node i (FsDirNode dp children st) \<Rightarrow> (Err PATH_NOT_FOUND, fs)
         | Node i (FsFileNode old fp st) \<Rightarrow>
             (let fs1 = put_node i (FsFileNode content fp (st\<lparr>mtime := Some ts\<rparr>)) fs
              in case getParent fs1 resolvedPath of
                   Node j (FsDirNode pp children pst) \<Rightarrow>
                     (Ok (), put_node j (FsDirNode pp children (pst\<lparr>mtime := Some ts\<rparr>)) fs1)
                 | _ \<Rightarrow> (Thrown, fs1))
         | _ \<Rightarrow>
             (if rec \<and> getParent fs resolvedPath = Null
              then (case MemoryFs_mkdir ctx (Path_dirname resolvedPath)
                           \<lparr>recursive = Some rec, timestamp = Some ts, rebuildIndexOpt = None\<rparr> now fs of
                      (Ok u, fs1) \<Rightarrow>
                        (case getParent fs1 resolvedPath of
                           Node j (FsDirNode pp children pst) \<Rightarrow> add fs1
                         | _ \<Rightarrow> (Thrown, fs1))
                    | r \<Rightarrow> r)
              else (case getParent fs resolvedPath of
                      Node j (FsDirNode pp children pst) \<Rightarrow> add fs
                    | _ \<Rightarrow> (Err PATH_UNAVAILABLE, fs))))"

text \<open>
  The part of \<open>rm\<close> shared by its file branch and its recursive branch: the entry of
  the node is deleted, the parent is looked up from the path argument as given, and
  the index is rebuilt unless the caller said not to.
\<close>

definition rm_delete :: "FsNode \<Rightarrow> string \<Rightarrow> nat \<Rightarrow> bool \<Rightarrow> Fs \<Rightarrow> unit outcome \<times> Fs" where
  "rm_delete node p ts rebuild fs =
     (case index fs (node_path node) of
        None \<Rightarrow> (Thrown, fs)
      | Some i \<Rightarrow>
          (let fs1 = fs\<lparr>nodes := (nodes fs)[i := None]\<rparr>
           in case getParent fs1 p of
                Node j (FsDirNode pp children pst) \<Rightarrow>
                  (let fs2 = put_node j (FsDirNode pp children (pst\<lparr>mtime := Some ts\<rparr>)) fs1
                   in if rebuild then rebuildIndex fs2 else (Ok (), fs2))
              | _ \<Rightarrow> (Thrown, fs1)))"

text \<open>
  \<open>rm\<close> calls itself on every child of a directory; the values the nested calls
  return are dropped, what they throw is not. The first argument is fuel: the
  recursion follows the \<open>children\<close> lists, which nothing bounds in an arbitrary \<open>Fs\<close>.
\<close>

fun MemoryFs_rm ::
    "nat \<Rightarrow> StoreContext \<Rightarrow> string \<Rightarrow> FsOptions \<Rightarrow> nat \<Rightarrow> Fs \<Rightarrow> unit outcome \<times> Fs"
  and rm_children ::
    "nat \<Rightarrow> StoreContext \<Rightarrow> string list \<Rightarrow> nat \<Rightarrow> nat \<Rightarrow> Fs \<Rightarrow> unit outcome \<times> Fs" where
  "MemoryFs_rm 0 ctx p options now fs = (Diverged, fs)"
| "MemoryFs_rm (Suc k) ctx p options now fs =
     (let resolvedPath = resolveWithinJail (jail ctx) (pwd ctx) p;
          rec = (case recursive options of Some r \<Rightarrow> r | None \<Rightarrow> False);
          ts = or_now (timestamp options) now;
          rebuild = (case rebuildIndexOpt options of Some r \<Rightarrow> r | None \<Rightarrow> True)
      in case getNode fs resolvedPath of
           Node i (FsFileNode content fp st) \<Rightarrow>
             rm_delete (FsFileNode content fp st) p ts rebuild fs
         | Node i (FsDirNode dp children st) \<Rightarrow>
             (if rec
              then (case rm_children k ctx children ts now fs of
                      (Ok u, fs1) \<Rightarrow> rm_delete (FsDirNode dp children st) p ts rebuild fs1
                    | r \<Rightarrow> r)
              else (Err DIR_EXISTS, fs))
         | _ \<Rightarrow> (Ok (), fs))"
| "rm_children k ctx [] ts now fs = (Ok (), fs)"
| "rm_children k ctx (n # ns) ts now fs =
     (case MemoryFs_rm k ctx n
             \<lparr>recursive = Some True, timestamp = Some ts, rebuildIndexOpt = Some False\<rparr> now fs of
        (Thrown, fs1) \<Rightarrow> (Thrown, fs1)
      | (Diverged, fs1) \<Rightarrow> (Diverged, fs1)
      | (r, fs1) \<Rightarrow> rm_children k ctx ns ts now fs1)"

definition MemoryFs_rmdir ::
  "nat \<Rightarrow> StoreContext \<Rightarrow> string \<Rightarrow> FsOptions \<Rightarrow> nat \<Rightarrow> Fs \<Rightarrow> unit outcome \<times> Fs" where
  "MemoryFs_rmdir k ctx p options now fs =
     (let resolvedPath = resolveWithinJail (jail ctx) (pwd ctx) p
      in case getNode fs resolvedPath of
           Node i (FsDirNode dp children st) \<Rightarrow>
             (if length children = 0
              then MemoryFs_rm k ctx p
                     \<lparr>recursive = None, timestamp = None, rebuildIndexOpt = None\<rparr> now fs
              else MemoryFs_rm k ctx p
                     \<lparr>recursive = Some True, timestamp = None, rebuildIndexOpt = None\<rparr> now fs)
         | Node i (FsFileNode content fp st) \<Rightarrow> (Err PATH_NOT_FOUND, fs)
         | _ \<Rightarrow> (Ok (), fs))"

section \<open>Serialisation (MemoryFs.toJson, MemoryFs.parse)\<close>

text \<open>
  \<open>JSON.stringify\<close> writes a \<open>Date\<close> as its ISO-8601 text and \<open>new Date(text)\<close> reads
  the instant back: \<open>Iso t\<close> is the text of the instant \<open>t\<close>. A hole of \<open>nodes\<close> is
  written as \<open>null\<close>. The text codec itself is the JSON library's; a stored string is
  modelled by what \<open>JSON.parse\<close> makes of it: a syntax error (\<open>NotJson\<close>), the value
  \<open>null\<close> (\<open>JsonNull\<close>), an object with the fields of the type \<open>Fs\<close> (\<open>JsonText\<close>, with
  any string as its \<open>version\<close>), or any other value whose property \<open>version\<close> is not
  \<open>"0.1"\<close> (\<open>JsonOther\<close>: a number, a string, a boolean, an array, an object of another
  shape). An object with the version \<open>"0.1"\<close> whose other fields are not those of \<open>Fs\<close>
  has no value in the model: the cast \<open>a as Fs\<close> checks nothing, and what \<open>parse\<close> does
  with it depends on which field is wrong.
\<close>

datatype JsonTime = Iso nat

record JsonStats =
  json_mtime :: "JsonTime option"
  json_atime :: "JsonTime option"
  json_ctime :: "JsonTime option"
  json_btime :: "JsonTime option"

datatype JsonNode =
    JsonFile string string JsonStats
  | JsonDir string "string list" JsonStats

record Envelope =
  json_version :: string
  json_nodes :: "JsonNode option list"
  json_index :: "string \<rightharpoonup> nat"

datatype Content = NotJson | JsonNull | JsonOther | JsonText Envelope

definition stringify_stats :: "StoreNodeTime \<Rightarrow> JsonStats" where
  "stringify_stats st =
     \<lparr>json_mtime = map_option Iso (mtime st), json_atime = map_option Iso (atime st),
      json_ctime = map_option Iso (ctime st), json_btime = map_option Iso (btime st)\<rparr>"

fun stringify_node :: "FsNode \<Rightarrow> JsonNode" where
  "stringify_node (FsFileNode content p st) = JsonFile content p (stringify_stats st)"
| "stringify_node (FsDirNode p children st) = JsonDir p children (stringify_stats st)"

definition toJson :: "Fs \<Rightarrow> Content" where
  "toJson fs =
     JsonText \<lparr>json_version = version fs,
               json_nodes = map (map_option stringify_node) (nodes fs),
               json_index = index fs\<rparr>"

fun new_Date :: "JsonTime \<Rightarrow> nat" where
  "new_Date (Iso t) = t"

definition revive_stats :: "JsonStats \<Rightarrow> StoreNodeTime" where
  "revive_stats st =
     \<lparr>mtime = map_option new_Date (json_mtime st), atime = map_option new_Date (json_atime st),
      ctime = map_option new_Date (json_ctime st), btime = map_option new_Date (json_btime st)\<rparr>"

fun revive_node :: "JsonNode \<Rightarrow> FsNode" where
  "revive_node (JsonFile content p st) = FsFileNode content p (revive_stats st)"
| "revive_node (JsonDir p children st) = FsDirNode p children (revive_stats st)"

text \<open>
  The loop of \<open>parse\<close> over the nodes; \<open>None\<close> is the throw of \<open>invariant(isSome(node))\<close>.
  In \<open>parse\<close> itself, \<open>fs.value.version\<close> throws a \<open>TypeError\<close> on \<open>null\<close>.
\<close>

fun parse_nodes :: "JsonNode option list \<Rightarrow> FsNode option list option" where
  "parse_nodes [] = Some []"
| "parse_nodes (None # ns) = None"
| "parse_nodes (Some n # ns) =
     (case parse_nodes ns of None \<Rightarrow> None | Some ms \<Rightarrow> Some (Some (revive_node n) # ms))"

definition MemoryFs_parse :: "Content \<Rightarrow> Fs outcome" where
  "MemoryFs_parse content =
     (case content of
        NotJson \<Rightarrow> Err SYNTAX
      | JsonNull \<Rightarrow> Thrown
      | JsonOther \<Rightarrow> Err SCHEMA
      | JsonText env \<Rightarrow>
          (if json_version env = ''0.1''
           then (case parse_nodes (json_nodes env) of
                   None \<Rightarrow> Thrown
                 | Some ns \<Rightarrow> Ok \<lparr>version = json_version env, nodes = ns, index = json_index env\<rparr>)
           else Err SCHEMA))"

section \<open>The blob-persisted adapter (webStore)\<close>

record WebStoreOptions =
  opt_pwd :: "string option"
  opt_uri :: "string option"
  opt_jail :: "string option"
  opt_prefix :: "string option"

text \<open>
  The state a \<open>webStore\<close> closes over: the context, the key \<open>prefix\<close>, the engine
  \<open>memory\<close>, and the \<open>Storage\<close> object, a dictionary from keys to strings.
\<close>

record WebStore =
  web_context :: StoreContext
  web_prefix :: string
  web_memory :: Fs
  web_storage :: "string \<rightharpoonup> Content"

definition getOrElse :: "'a option \<Rightarrow> 'a \<Rightarrow> 'a" where
  "getOrElse v d = (case v of Some a \<Rightarrow> a | None \<Rightarrow> d)"

definition webStore :: "(string \<rightharpoonup> Content) \<Rightarrow> WebStoreOptions \<Rightarrow> nat \<Rightarrow> WebStore outcome" where
  "webStore storage options now =
     (let jl = getOrElse (opt_jail options) ''/'';
          wd = resolveWithinJail jl jl (getOrElse (opt_pwd options) ''/'');
          u = getOrElse (opt_uri options) (''web://'' @ wd);
          prefix_key = getOrElse (opt_prefix options) [];
          content = storage ''prefix'';
          memory = (case content of
                      None \<Rightarrow> Ok (MemoryFs_empty wd now)
                    | Some c \<Rightarrow>
                        (case MemoryFs_parse c of
                           Ok m \<Rightarrow> Ok m
                         | Thrown \<Rightarrow> Thrown
                         | _ \<Rightarrow> Ok (MemoryFs_empty wd now)))
      in case memory of
           Ok m \<Rightarrow> Ok \<lparr>web_context = \<lparr>uri = u, jail = jl, pwd = wd\<rparr>, web_prefix = prefix_key,
                        web_memory = m, web_storage = storage\<rparr>
         | _ \<Rightarrow> Thrown)"

definition save :: "WebStore \<Rightarrow> WebStore" where
  "save ws = ws\<lparr>web_storage := (web_storage ws)(web_prefix ws \<mapsto> toJson (web_memory ws))\<rparr>"

text \<open>
  The methods that change the tree run the engine and save when it returned \<open>null\<close>;
  \<open>read\<close> saves when it returned a value.
\<close>

definition after_engine :: "WebStore \<Rightarrow> 'a outcome \<times> Fs \<Rightarrow> 'a outcome \<times> WebStore" where
  "after_engine ws r =
     (case r of
        (Ok v, fs) \<Rightarrow> (Ok v, save (ws\<lparr>web_memory := fs\<rparr>))
      | (e, fs) \<Rightarrow> (e, ws\<lparr>web_memory := fs\<rparr>))"

definition web_read :: "StoreContext \<Rightarrow> string \<Rightarrow> nat \<Rightarrow> WebStore \<Rightarrow> string outcome \<times> WebStore" where
  "web_read ctx p now ws = after_engine ws (MemoryFs_read ctx p now (web_memory ws))"

definition web_write ::
  "StoreContext \<Rightarrow> string \<Rightarrow> string \<Rightarrow> bool \<Rightarrow> nat \<Rightarrow> WebStore \<Rightarrow> unit outcome \<times> WebStore" where
  "web_write ctx p content recurive now ws =
     after_engine ws (MemoryFs_write ctx p content
        \<lparr>recursive = Some recurive, timestamp = None, rebuildIndexOpt = None\<rparr> now (web_memory ws))"

definition web_rm ::
  "nat \<Rightarrow> StoreContext \<Rightarrow> string \<Rightarrow> bool \<Rightarrow> nat \<Rightarrow> WebStore \<Rightarrow> unit outcome \<times> WebStore" where
  "web_rm k ctx p rec now ws =
     after_engine ws (MemoryFs_rm k ctx p
        \<lparr>recursive = Some rec, timestamp = None, rebuildIndexOpt = None\<rparr> now (web_memory ws))"

definition web_mkdir ::
  "StoreContext \<Rightarrow> string \<Rightarrow> bool \<Rightarrow> nat \<Rightarrow> WebStore \<Rightarrow> unit outcome \<times> WebStore" where
  "web_mkdir ctx p rec now ws =
     after_engine ws (MemoryFs_mkdir ctx p
        \<lparr>recursive = Some rec, timestamp = None, rebuildIndexOpt = None\<rparr> now (web_memory ws))"

definition web_rmdir ::
  "nat \<Rightarrow> StoreContext \<Rightarrow> string \<Rightarrow> bool \<Rightarrow> nat \<Rightarrow> WebStore \<Rightarrow> unit outcome \<times> WebStore" where
  "web_rmdir k ctx p rec now ws =
     after_engine ws (MemoryFs_rmdir k ctx p
        \<lparr>recursive = Some rec, timestamp = None, rebuildIndexOpt = None\<rparr> now (web_memory ws))"

definition web_utimes ::
  "StoreContext \<Rightarrow> string \<Rightarrow> GivenTime \<Rightarrow> WebStore \<Rightarrow> unit outcome \<times> WebStore" where
  "web_utimes ctx p st ws = after_engine ws (MemoryFs_utimes ctx p st (web_memory ws))"

section \<open>The host-filesystem adapter (src/store/file\_store.ts)\<close>

text \<open>
  The adapter's functions call one primitive of \<open>node:fs/promises\<close> each. The model
  gives, for each function, the call it issues; \<open>home\<close> is the value of \<open>homedir()\<close>.
\<close>

datatype host_call =
    FS_readFile string
  | FS_readdir string "bool option"
  | FS_rm string "bool option"
  | FS_rmdir string "bool option"
  | FS_mkdir string bool
  | FS_writeFile string string
  | FS_stat string
  | FS_utimes string nat nat

fun host_path :: "host_call \<Rightarrow> string" where
  "host_path (FS_readFile p) = p"
| "host_path (FS_readdir p r) = p"
| "host_path (FS_rm p r) = p"
| "host_path (FS_rmdir p r) = p"
| "host_path (FS_mkdir p r) = p"
| "host_path (FS_writeFile p c) = p"
| "host_path (FS_stat p) = p"
| "host_path (FS_utimes p a m) = p"

definition file_resolve :: "string \<Rightarrow> StoreContext \<Rightarrow> string \<Rightarrow> string" where
  "file_resolve home ctx p =
     (let fixedPwd = (if prefix ''~'' (pwd ctx) then Path_join [home, drop 1 (pwd ctx)] else pwd ctx);
          fixedPath = (if prefix ''~'' p then home @ ''/'' @ drop 1 p else p)
      in resolveWithinJail (jail ctx) fixedPwd fixedPath)"

definition file_read :: "string \<Rightarrow> StoreContext \<Rightarrow> string \<Rightarrow> host_call" where
  "file_read home ctx p = (let jailedPath = file_resolve home ctx p in FS_readFile jailedPath)"

definition file_readdir :: "string \<Rightarrow> StoreContext \<Rightarrow> string \<Rightarrow> bool option \<Rightarrow> host_call" where
  "file_readdir home ctx p rec = (let jailedPath = file_resolve home ctx p in FS_readdir jailedPath rec)"

definition file_rm :: "string \<Rightarrow> StoreContext \<Rightarrow> string \<Rightarrow> bool option \<Rightarrow> host_call" where
  "file_rm home ctx p rec = (let jailedPath = file_resolve home ctx p in FS_rm p rec)"

definition file_rmdir :: "string \<Rightarrow> StoreContext \<Rightarrow> string \<Rightarrow> bool option \<Rightarrow> host_call" where
  "file_rmdir home ctx p rec = (let jailedPath = file_resolve home ctx p in FS_rmdir p rec)"

definition file_mkdir :: "string \<Rightarrow> StoreContext \<Rightarrow> string \<Rightarrow> bool option \<Rightarrow> host_call" where
  "file_mkdir home ctx p rec =
     (let jailedPath = file_resolve home ctx p in FS_mkdir jailedPath (getOrElse rec True))"

definition file_writeFile :: "string \<Rightarrow> StoreContext \<Rightarrow> string \<Rightarrow> string \<Rightarrow> host_call" where
  "file_writeFile home ctx p content =
     (let jailedPath = file_resolve home ctx p in FS_writeFile jailedPath content)"

definition file_stats :: "string \<Rightarrow> StoreContext \<Rightarrow> string \<Rightarrow> host_call" where
  "file_stats home ctx p = (let jailedPath = file_resolve home ctx p in FS_stat jailedPath)"

text \<open>\<open>stats.atime ?? now\<close>: an absent field and one holding \<open>undefined\<close> both give \<open>now\<close>.\<close>

definition file_utimes :: "string \<Rightarrow> StoreContext \<Rightarrow> string \<Rightarrow> GivenTime \<Rightarrow> nat \<Rightarrow> host_call" where
  "file_utimes home ctx p st now =
     (let jailedPath = file_resolve home ctx p
      in FS_utimes jailedPath
           (or_now (case given_atime st of Some v \<Rightarrow> v | None \<Rightarrow> None) now)
           (or_now (case given_mtime st of Some v \<Rightarrow> v | None \<Rightarrow> None) now))"

text \<open>
  The comparator that the adapter's \<open>readdir\<close> sorts a listing with. \<open>isNumberic\<close> is
  \<open>/^[0-9]+$/\<close>. \<open>parseInt\<close> returns a double: for a digit string whose decimal value
  is at most \<open>2^53\<close> that double is the value itself, and the model gives \<open>parseInt\<close>
  there only (\<open>None\<close> beyond, where the value is rounded).
\<close>

definition isNumberic :: "string \<Rightarrow> bool" where
  "isNumberic v = (v \<noteq> [] \<and> list_all (\<lambda>c. CHR ''0'' \<le> c \<and> c \<le> CHR ''9'') v)"

definition parseInt :: "string \<Rightarrow> int option" where
  "parseInt v =
     (let n = fold (\<lambda>c n. 10 * n + (int (of_char c) - 48)) v 0
      in if n \<le> 2 ^ 53 then Some n else None)"

definition readdir_compare :: "string \<Rightarrow> string \<Rightarrow> int option" where
  "readdir_compare a b =
     (if isNumberic a \<and> isNumberic b
      then (case (parseInt a, parseInt b) of (Some m, Some n) \<Rightarrow> Some (m - n) | _ \<Rightarrow> None)
      else if a < b then Some (- 1) else Some 1)"

text \<open>
  \<open>children.sort(compare)\<close>. The sort of the engine is stable, and on a listing that the
  comparator orders consistently every stable sort returns the same array; the model
  is the insertion sort. The comparator orders a listing consistently when all its
  names are digit strings of the range above, or when none is a digit string and no
  name occurs twice. On any other listing (digit strings mixed with other names,
  where the comparator is not transitive) the order is the engine's choice and the
  model gives none.
\<close>

fun insert_by :: "('a \<Rightarrow> 'a \<Rightarrow> int option) \<Rightarrow> 'a \<Rightarrow> 'a list \<Rightarrow> 'a list option" where
  "insert_by cmp x [] = Some [x]"
| "insert_by cmp x (y # ys) =
     (case cmp x y of
        None \<Rightarrow> None
      | Some d \<Rightarrow> if d < 0 then Some (x # y # ys) else map_option (Cons y) (insert_by cmp x ys))"

definition sort_by :: "('a \<Rightarrow> 'a \<Rightarrow> int option) \<Rightarrow> 'a list \<Rightarrow> 'a list option" where
  "sort_by cmp xs = fold (\<lambda>x acc. Option.bind acc (insert_by cmp x)) xs (Some [])"

definition consistently_ordered :: "string list \<Rightarrow> bool" where
  "consistently_ordered children =
     (list_all (\<lambda>v. isNumberic v \<and> parseInt v \<noteq> None) children
      \<or> (list_all (\<lambda>v. \<not> isNumberic v) children \<and> distinct children))"

definition file_readdir_sorted :: "string list \<Rightarrow> string list option" where
  "file_readdir_sorted children =
     (if consistently_ordered children then sort_by readdir_compare children else None)"

section \<open>Notions used to state the properties\<close>

text \<open>The node \<open>n\<close> with \<open>stats.atime\<close> set to \<open>now\<close>, and nothing else changed.\<close>

definition touch_atime :: "nat \<Rightarrow> FsNode \<Rightarrow> FsNode" where
  "touch_atime now n = set_stats ((node_stats n)\<lparr>atime := Some now\<rparr>) n"

text \<open>
  The index agrees with the array: an entry of \<open>index\<close> points inside \<open>nodes\<close>, and when
  it points at a node, that node has the entry's path.
\<close>

definition index_consistent :: "Fs \<Rightarrow> bool" where
  "index_consistent fs =
     (\<forall>q i. index fs q = Some i
        \<longrightarrow> i < length (nodes fs) \<and> (\<forall>n. nodes fs ! i = Some n \<longrightarrow> node_path n = q))"

text \<open>
  The states of an engine that was started by \<open>MemoryFs.empty\<close>: the empty tree, and
  what any call of an operation leaves behind, whether it returned or threw. An engine
  built by \<open>MemoryFs.parse\<close> takes \<open>nodes\<close> and \<open>index\<close> from the stored text as they
  are; its states are not among these unless the text was written by \<open>toJson\<close> from
  one of them.
\<close>

inductive reachable_from_empty :: "Fs \<Rightarrow> bool" where
  at_empty: "reachable_from_empty (MemoryFs_empty root t)"
| at_read: "reachable_from_empty fs \<Longrightarrow> reachable_from_empty (snd (MemoryFs_read ctx p now fs))"
| at_write: "reachable_from_empty fs \<Longrightarrow> reachable_from_empty (snd (MemoryFs_write ctx p c opts now fs))"
| at_mkdir: "reachable_from_empty fs \<Longrightarrow> reachable_from_empty (snd (MemoryFs_mkdir ctx p opts now fs))"
| at_rm: "reachable_from_empty fs \<Longrightarrow> reachable_from_empty (snd (MemoryFs_rm k ctx p opts now fs))"
| at_rmdir: "reachable_from_empty fs \<Longrightarrow> reachable_from_empty (snd (MemoryFs_rmdir k ctx p opts now fs))"
| at_utimes: "reachable_from_empty fs \<Longrightarrow> reachable_from_empty (snd (MemoryFs_utimes ctx p st fs))"

text \<open>
  The states of an engine that was started by \<open>MemoryFs.empty\<close> and on which only
  \<open>read\<close>, \<open>write\<close>, \<open>mkdir\<close> and \<open>utimes\<close> were called, whether the calls returned or
  threw: \<open>write\<close> and \<open>mkdir\<close> with an absolute jail, and \<open>write\<close> with a path whose
  parent path starts with the jail, as every path does when the jail is \<open>/\<close>.
\<close>

inductive reachable_without_rm :: "Fs \<Rightarrow> bool" where
  wo_empty: "reachable_without_rm (MemoryFs_empty root t)"
| wo_read: "reachable_without_rm fs \<Longrightarrow> reachable_without_rm (snd (MemoryFs_read ctx p now fs))"
| wo_write: "reachable_without_rm fs \<Longrightarrow> isAbsolute (jail ctx)
     \<Longrightarrow> prefix (jail ctx) (Path_dirname (resolveWithinJail (jail ctx) (pwd ctx) p))
     \<Longrightarrow> reachable_without_rm (snd (MemoryFs_write ctx p c opts now fs))"
| wo_mkdir: "reachable_without_rm fs \<Longrightarrow> isAbsolute (jail ctx)
     \<Longrightarrow> reachable_without_rm (snd (MemoryFs_mkdir ctx p opts now fs))"
| wo_utimes: "reachable_without_rm fs \<Longrightarrow> reachable_without_rm (snd (MemoryFs_utimes ctx p st fs))"

text \<open>
  What \<open>getNode\<close> finds at a path: a directory, a file.
\<close>

definition dir_at :: "Fs \<Rightarrow> string \<Rightarrow> bool" where
  "dir_at fs q = (case getNode fs q of Node j (FsDirNode pp ch pst) \<Rightarrow> True | _ \<Rightarrow> False)"

definition file_at :: "Fs \<Rightarrow> string \<Rightarrow> bool" where
  "file_at fs q = (case getNode fs q of Node j (FsFileNode c fp st) \<Rightarrow> True | _ \<Rightarrow> False)"

text \<open>
  The node that the index gives for the path \<open>q\<close>, if it gives one, carries that path
  (in the form \<open>getNode\<close> looks it up under).
\<close>

definition stored_under :: "Fs \<Rightarrow> string \<Rightarrow> bool" where
  "stored_under fs q =
     (case getNode fs q of Node i n \<Rightarrow> node_path n = Path_resolve ''/'' q | _ \<Rightarrow> True)"

text \<open>
  The index lists exactly the nodes: it agrees with the array, the array has no hole,
  and every node is entered in the index under its own path.
\<close>

definition exactly_indexed :: "Fs \<Rightarrow> bool" where
  "exactly_indexed fs =
     (index_consistent fs \<and> None \<notin> set (nodes fs)
      \<and> (\<forall>i n. i < length (nodes fs) \<and> nodes fs ! i = Some n \<longrightarrow> index fs (node_path n) = Some i))"

text \<open>
  A path lies within the directory \<open>J\<close> when it is \<open>J\<close> itself or continues \<open>J\<close> after a
  slash; every absolute path lies within the root.
\<close>

definition inside_dir :: "string \<Rightarrow> string \<Rightarrow> bool" where
  "inside_dir J q = (if J = ''/'' then prefix ''/'' q else q = J \<or> prefix (J @ ''/'') q)"

text \<open>
  Lists of the parts of a path. Proper parts are non-empty names without a slash; plain
  parts are, besides, not the name \<open>.\<close>, which \<open>join\<close> drops. \<open>path_of\<close> is the absolute
  path with the given parts.
\<close>

definition proper_parts :: "string list \<Rightarrow> bool" where
  "proper_parts cs = list_all (\<lambda>w. w \<noteq> [] \<and> CHR ''/'' \<notin> set w) cs"

definition plain_parts :: "string list \<Rightarrow> bool" where
  "plain_parts cs = (proper_parts cs \<and> ''.'' \<notin> set cs)"

definition path_of :: "string list \<Rightarrow> string" where
  "path_of cs = ''/'' @ join_slash cs"

section \<open>Fixtures\<close>

text \<open>The context of \<open>memoryStore()\<close>, and an option bag with no field given.\<close>

definition memory_context :: StoreContext where
  "memory_context = \<lparr>uri = ''memory:///'', jail = ''/'', pwd = ''/''\<rparr>"

definition no_options :: FsOptions where
  "no_options = \<lparr>recursive = None, timestamp = None, rebuildIndexOpt = None\<rparr>"

text \<open>The argument \<open>{ mtime: t }\<close> of \<open>utimes\<close>.\<close>

definition only_mtime :: "nat \<Rightarrow> GivenTime" where
  "only_mtime t =
     \<lparr>given_mtime = Some (Some t), given_atime = None, given_ctime = None, given_btime = None\<rparr>"

text \<open>An engine holding the one file \<open>/a\<close>, and one holding \<open>/d/f\<close>.\<close>

definition engine_with_a :: Fs where
  "engine_with_a = snd (MemoryFs_write memory_context ''/a'' ''x'' no_options 1 (MemoryFs_empty ''/'' 0))"

definition engine_with_d_f :: Fs where
  "engine_with_d_f = snd (MemoryFs_write memory_context ''/d/f'' ''x'' no_options 1 (MemoryFs_empty ''/'' 0))"

text \<open>\<open>engine_with_a\<close> after \<open>rm("/a")\<close>.\<close>

definition engine_after_rm :: Fs where
  "engine_after_rm = snd (MemoryFs_rm 1 memory_context ''/a'' no_options 2 engine_with_a)"

text \<open>An engine into which \<open>/10\<close>, \<open>/2\<close> and \<open>/1\<close> were written, in this order.\<close>

definition engine_with_numbers :: Fs where
  "engine_with_numbers =
     snd (MemoryFs_write memory_context ''/1'' ''c'' no_options 3
       (snd (MemoryFs_write memory_context ''/2'' ''b'' no_options 2
         (snd (MemoryFs_write memory_context ''/10'' ''a'' no_options 1 (MemoryFs_empty ''/'' 0))))))"

definition jailed_context :: StoreContext where
  "jailed_context = \<lparr>uri = ''file:///jail'', jail = ''/jail'', pwd = ''/jail''\<rparr>"

definition fs_prefix_options :: WebStoreOptions where
  "fs_prefix_options = \<lparr>opt_pwd = None, opt_uri = None, opt_jail = None, opt_prefix = Some ''fs''\<rparr>"

text \<open>
  The storage left behind by a \<open>webStore\<close> of prefix \<open>fs\<close> on an empty storage, after
  its \<open>write("/a", "x")\<close>.
\<close>

definition storage_after_write :: "string \<rightharpoonup> Content" where
  "storage_after_write =
     (case webStore Map.empty fs_prefix_options 0 of
        Ok ws \<Rightarrow> web_storage (snd (web_write (web_context ws) ''/a'' ''x'' True 1 ws))
      | _ \<Rightarrow> Map.empty)"

text \<open>
  An engine after \<open>mkdir("/a/b/c")\<close> at time 1, and the same after
  \<open>write("a/b/c/file", "x")\<close> at time 2.
\<close>

definition engine_with_abc :: Fs where
  "engine_with_abc = snd (MemoryFs_mkdir memory_context ''/a/b/c'' no_options 1 (MemoryFs_empty ''/'' 0))"

definition engine_with_file :: Fs where
  "engine_with_file = snd (MemoryFs_write memory_context ''a/b/c/file'' ''x'' no_options 2 engine_with_abc)"

text \<open>
  A stored text whose index enters the file \<open>/b/c\<close> under the path \<open>/a\<close>; \<open>parse\<close>
  accepts it.
\<close>

definition mismatched_envelope :: Envelope where
  "mismatched_envelope =
     \<lparr>json_version = ''0.1'',
      json_nodes = [Some (JsonDir ''/'' [''/a''] (stringify_stats (fresh_stats 0))),
                    Some (JsonFile ''x'' ''/b/c'' (stringify_stats (fresh_stats 0)))],
      json_index = [''/'' \<mapsto> 0, ''/a'' \<mapsto> 1]\<rparr>"

section \<open>Facts about the path algebra\<close>

lemma split_slash_nonempty: "split_slash p \<noteq> []"
  by (induction p) (auto split: list.splits)

lemma collapse_hd: "collapse_slashes (c # cs) \<noteq> [] \<and> hd (collapse_slashes (c # cs)) = c"
  by (induction cs arbitrary: c) auto

lemma no_double_slash_collapse: "no_double_slash (collapse_slashes x)"
proof (induction x rule: collapse_slashes.induct)
  case (3 c d cs)
  obtain e es where e: "collapse_slashes (d # cs) = e # es"
    using collapse_hd [of d cs] by (cases "collapse_slashes (d # cs)") auto
  then have "e = d" using collapse_hd [of d cs] by simp
  then show ?case using 3 e by auto
qed simp_all

lemma collapse_no_double_slash: "no_double_slash x \<Longrightarrow> collapse_slashes x = x"
  by (induction x rule: collapse_slashes.induct) auto

lemma collapse_length: "length (collapse_slashes x) \<le> length x"
  by (induction x rule: collapse_slashes.induct) auto

lemma no_double_slash_butlast: "no_double_slash x \<Longrightarrow> no_double_slash (butlast x)"
  by (induction x rule: no_double_slash.induct) (auto split: if_splits)

lemma no_double_slash_last_butlast:
  "no_double_slash x \<Longrightarrow> x \<noteq> [] \<Longrightarrow> last x = CHR ''/'' \<Longrightarrow> butlast x \<noteq> [] \<Longrightarrow> last (butlast x) \<noteq> CHR ''/''"
  by (induction x rule: no_double_slash.induct) (auto split: if_splits)

lemma collapse_append:
  "no_double_slash J \<Longrightarrow> J \<noteq> [] \<Longrightarrow> last J \<noteq> CHR ''/'' \<Longrightarrow> collapse_slashes (J @ ys) = J @ collapse_slashes ys"
proof (induction J rule: no_double_slash.induct)
  case (2 c)
  then show ?case by (cases ys) auto
next
  case (3 c d cs)
  then show ?case by auto
qed simp

lemma strip_clean:
  assumes "no_double_slash y" "isAbsolute y"
  shows "cleanPath (if y = ''/'' then y else strip_trailing_slash y) = (if y = ''/'' then y else strip_trailing_slash y)
         \<and> isAbsolute (if y = ''/'' then y else strip_trailing_slash y)"
proof (cases "y = ''/''")
  case True
  then show ?thesis by (simp add: cleanPath_def strip_trailing_slash_def isAbsolute_def)
next
  case False
  from assms(2) obtain rest where y: "y = CHR ''/'' # rest" by (cases y) (auto simp: isAbsolute_def)
  with False have rest: "rest \<noteq> []" by auto
  let ?z = "strip_trailing_slash y"
  have z_ne: "?z \<noteq> []" using y rest by (auto simp: strip_trailing_slash_def)
  have z_abs: "isAbsolute ?z" using y rest by (auto simp: strip_trailing_slash_def isAbsolute_def)
  have z_no_double_slash: "no_double_slash ?z" using assms(1) by (auto simp: strip_trailing_slash_def no_double_slash_butlast)
  have z_last: "last ?z \<noteq> CHR ''/''"
    using no_double_slash_last_butlast [OF assms(1)] z_ne by (auto simp: strip_trailing_slash_def)
  have "cleanPath ?z = ?z"
    using z_ne z_last collapse_no_double_slash [OF z_no_double_slash] by (simp add: cleanPath_def Let_def strip_trailing_slash_def)
  then show ?thesis using False z_abs by simp
qed

lemma strip_idem: "no_double_slash y \<Longrightarrow> strip_trailing_slash (strip_trailing_slash y) = strip_trailing_slash y"
  using no_double_slash_last_butlast [of y] by (auto simp: strip_trailing_slash_def)

lemma cleanPath_no_trailing:
  "cleanPath x = ''/'' \<or> strip_trailing_slash (cleanPath x) = cleanPath x"
  using strip_idem [OF no_double_slash_collapse, of x] by (auto simp: cleanPath_def Let_def)

lemma cleanPath_no_double_slash: "no_double_slash (cleanPath x)"
  using no_double_slash_collapse [of x] by (auto simp: cleanPath_def Let_def strip_trailing_slash_def no_double_slash_butlast)

lemma cleanPath_abs: "isAbsolute x \<Longrightarrow> isAbsolute (cleanPath x)"
proof -
  assume "isAbsolute x"
  then obtain rest where x: "x = CHR ''/'' # rest" by (cases x) (auto simp: isAbsolute_def)
  obtain ys where y: "collapse_slashes x = CHR ''/'' # ys"
    using collapse_hd [of "CHR ''/''" rest] x by (cases "collapse_slashes x") auto
  show ?thesis
    unfolding cleanPath_def Let_def y
    by (cases ys) (auto simp: strip_trailing_slash_def isAbsolute_def)
qed

lemma resolve_abs: "isAbsolute (Path_resolve b p)"
  by (auto simp: Path_resolve_def intro!: cleanPath_abs) (simp add: isAbsolute_def)

lemma resolve_no_double_slash: "no_double_slash (Path_resolve b p)"
  by (simp add: Path_resolve_def cleanPath_no_double_slash)

lemma resolve_no_trailing:
  "Path_resolve b p = ''/'' \<or> strip_trailing_slash (Path_resolve b p) = Path_resolve b p"
  by (simp add: Path_resolve_def cleanPath_no_trailing)

lemma collapse_abs: "isAbsolute x \<Longrightarrow> isAbsolute (collapse_slashes (x @ ys))"
proof -
  assume "isAbsolute x"
  then obtain rest where x: "x = CHR ''/'' # rest" by (cases x) (auto simp: isAbsolute_def)
  show ?thesis using collapse_hd [of "CHR ''/''" "rest @ ys"] x
    by (cases "collapse_slashes (CHR ''/'' # rest @ ys)") (auto simp: isAbsolute_def)
qed

lemma resolveWithinJail_normal:
  assumes "isAbsolute J"
  shows "cleanPath (resolveWithinJail J b p) = resolveWithinJail J b p
         \<and> isAbsolute (resolveWithinJail J b p)"
proof -
  define y where "y = (if \<not> withinJail J (Path_resolve b p)
                       then collapse_slashes (J @ ''/'' @ Path_resolve b p)
                       else Path_resolve b p)"
  have eq: "resolveWithinJail J b p = (if y = ''/'' then y else strip_trailing_slash y)"
    by (simp add: resolveWithinJail_def Let_def y_def)
  have "no_double_slash y" by (simp add: y_def no_double_slash_collapse resolve_no_double_slash)
  moreover have "isAbsolute y" using collapse_abs [OF assms] by (simp add: y_def resolve_abs)
  ultimately show ?thesis unfolding eq by (rule strip_clean)
qed

lemma resolve_root_resolveWithinJail:
  "isAbsolute J \<Longrightarrow> Path_resolve ''/'' (resolveWithinJail J b p) = resolveWithinJail J b p"
  using resolveWithinJail_normal [of J b p] by (simp add: Path_resolve_def)

lemma clean_jail_cases:
  assumes "cleanPath J = J"
  shows "J = ''/'' \<or> (no_double_slash J \<and> J \<noteq> [] \<and> last J \<noteq> CHR ''/'')"
proof (cases "strip_trailing_slash (collapse_slashes J) = []")
  case True
  then show ?thesis using assms by (simp add: cleanPath_def Let_def)
next
  case False
  then have eq: "strip_trailing_slash (collapse_slashes J) = J"
    using assms by (simp add: cleanPath_def Let_def)
  have len: "length (collapse_slashes J) \<le> length J" by (rule collapse_length)
  have c: "collapse_slashes J = J \<and> \<not> (J \<noteq> [] \<and> last J = CHR ''/'')"
  proof (cases "collapse_slashes J \<noteq> [] \<and> last (collapse_slashes J) = CHR ''/''")
    case True
    then have "butlast (collapse_slashes J) = J" using eq by (simp add: strip_trailing_slash_def)
    then have "length J = length (collapse_slashes J) - 1" by (metis length_butlast)
    with len True show ?thesis by (cases "collapse_slashes J") auto
  next
    case False
    then show ?thesis using eq by (auto simp: strip_trailing_slash_def)
  qed
  have "J \<noteq> []" using False eq by auto
  moreover have "no_double_slash J" using no_double_slash_collapse [of J] c by simp
  ultimately show ?thesis using c by auto
qed

lemma strip_append_prefix: "zs \<noteq> [] \<Longrightarrow> prefix J (strip_trailing_slash (J @ zs))"
  by (auto simp: strip_trailing_slash_def butlast_append)

lemma resolveWithinJail_prefix:
  assumes abs: "isAbsolute J" and clean: "cleanPath J = J"
  shows "prefix J (resolveWithinJail J b p)"
proof -
  define r where "r = Path_resolve b p"
  have ra: "isAbsolute r" by (simp add: r_def resolve_abs)
  have rt: "r = ''/'' \<or> strip_trailing_slash r = r" using resolve_no_trailing [of b p] by (simp add: r_def)
  have eq: "resolveWithinJail J b p =
      (let f = (if \<not> withinJail J r then collapse_slashes (J @ ''/'' @ r) else r)
       in if f = ''/'' then f else strip_trailing_slash f)"
    by (simp add: resolveWithinJail_def r_def)
  show ?thesis
  proof (cases "withinJail J r")
    case True
    then have pre: "prefix J r" using ra by (simp add: withinJail_def isRelative_def)
    have "resolveWithinJail J b p = r" using True rt unfolding eq Let_def by auto
    then show ?thesis using pre by simp
  next
    case False
    have "J \<noteq> ''/''"
      using False ra by (auto simp: withinJail_def isRelative_def isAbsolute_def)
    then have J: "no_double_slash J" "J \<noteq> []" "last J \<noteq> CHR ''/''"
      using clean_jail_cases [OF clean] by auto
    define z where "z = collapse_slashes (''/'' @ r)"
    have f: "collapse_slashes (J @ ''/'' @ r) = J @ z"
      using collapse_append [OF J, of "''/'' @ r"] by (simp add: z_def)
    have z: "z \<noteq> []" using collapse_hd [of "CHR ''/''" r] by (simp add: z_def)
    have ne: "J @ z \<noteq> ''/''" using J(2) z by (cases J) auto
    have "resolveWithinJail J b p = strip_trailing_slash (J @ z)"
      using False ne unfolding eq Let_def f by simp
    then show ?thesis using strip_append_prefix [OF z, of J] by simp
  qed
qed

lemma resolve_parts_clamp:
  "set parts \<subseteq> {''..'', ''.'', []} \<Longrightarrow> length stack \<le> count_list parts ''..''
   \<Longrightarrow> resolve_parts stack parts = []"
proof (induction parts arbitrary: stack)
  case Nil
  then show ?case by simp
next
  case (Cons part parts)
  then show ?case by (cases "part = ''..''") (auto intro!: Cons.IH)
qed

lemma resolveWithinJail_clamp:
  assumes abs: "isAbsolute J" and clean: "cleanPath J = J" and rel: "isRelative p"
    and parts: "set (split_slash p) \<subseteq> {''..'', ''.'', []}"
    and enough: "length (filter (\<lambda>part. length part > 0) (split_slash b)) \<le> count_list (split_slash p) ''..''"
  shows "resolveWithinJail J b p = J"
proof -
  have r: "Path_resolve b p = ''/''"
    using rel resolve_parts_clamp [OF parts enough]
    by (simp add: Path_resolve_def isRelative_def cleanPath_def strip_trailing_slash_def)
  show ?thesis
  proof (cases "J = ''/''")
    case True
    then show ?thesis using r by (simp add: resolveWithinJail_def withinJail_def isRelative_def isAbsolute_def)
  next
    case False
    then have J: "no_double_slash J" "J \<noteq> []" "last J \<noteq> CHR ''/''"
      using clean_jail_cases [OF clean] by auto
    have nw: "\<not> withinJail J ''/''"
      using False J(2) by (cases J) (auto simp: withinJail_def isRelative_def isAbsolute_def)
    have f: "collapse_slashes (J @ ''//'') = J @ ''/''"
      using collapse_append [OF J, of "''//''"] by simp
    have ne: "J @ ''/'' \<noteq> ''/''" using J(2) by (cases J) auto
    show ?thesis using r nw f ne
      by (simp add: resolveWithinJail_def Let_def strip_trailing_slash_def)
  qed
qed

lemma join_split: "join_slash (split_slash x) = x"
proof (induction x)
  case Nil
  show ?case by simp
next
  case (Cons c cs)
  obtain w ws where s: "split_slash cs = w # ws"
    using split_slash_nonempty [of cs] by (cases "split_slash cs") auto
  show ?case
  proof (cases "c = CHR ''/''")
    case True
    then show ?thesis using Cons s by simp
  next
    case False
    then show ?thesis using Cons s by (cases ws) auto
  qed
qed

lemma split_parts_nonempty:
  "no_double_slash x \<Longrightarrow> x \<noteq> [] \<Longrightarrow> last x \<noteq> CHR ''/''
   \<Longrightarrow> [] \<notin> set (tl (split_slash x)) \<and> (hd x \<noteq> CHR ''/'' \<longrightarrow> hd (split_slash x) \<noteq> [])"
proof (induction x rule: no_double_slash.induct)
  case 1
  then show ?case by simp
next
  case (2 c)
  then show ?case by simp
next
  case (3 c d cs)
  obtain w ws where s: "split_slash (d # cs) = w # ws"
    using split_slash_nonempty [of "d # cs"] by (cases "split_slash (d # cs)") auto
  from 3 have ih: "[] \<notin> set ws" "d \<noteq> CHR ''/'' \<longrightarrow> w \<noteq> []"
    using s by auto
  show ?case
  proof (cases "c = CHR ''/''")
    case True
    then have "d \<noteq> CHR ''/''" using 3(2) by simp
    then show ?thesis using True ih s by simp
  next
    case False
    then show ?thesis using ih s by simp
  qed
qed

lemma normal_jail_parts:
  assumes abs: "isAbsolute J" and clean: "cleanPath J = J"
  shows "cleanPath (''/'' @ join_slash (filter (\<lambda>part. length part > 0) (split_slash J))) = J"
proof (cases "J = ''/''")
  case True
  then show ?thesis by (simp add: cleanPath_def strip_trailing_slash_def)
next
  case False
  then have J: "no_double_slash J" "J \<noteq> []" "last J \<noteq> CHR ''/''"
    using clean_jail_cases [OF clean] by auto
  from abs obtain rest where r: "J = CHR ''/'' # rest" by (cases J) (auto simp: isAbsolute_def)
  with False have rne: "rest \<noteq> []" by auto
  have rest: "no_double_slash rest" "last rest \<noteq> CHR ''/''" "hd rest \<noteq> CHR ''/''"
    using J r rne by (cases rest; auto)+
  have "[] \<notin> set (split_slash rest)"
    using split_parts_nonempty [OF rest(1) rne rest(2)] rest(3) split_slash_nonempty [of rest]
    by (cases "split_slash rest") auto
  then have "filter (\<lambda>part. length part > 0) (split_slash rest) = split_slash rest"
    by (auto simp: filter_id_conv)
  then have "''/'' @ join_slash (filter (\<lambda>part. length part > 0) (split_slash J)) = J"
    using r join_split [of rest] by simp
  then show ?thesis using clean by simp
qed

lemma resolve_parts_take:
  "set parts \<subseteq> {''..'', ''.'', []}
   \<Longrightarrow> resolve_parts stack parts = take (length stack - count_list parts ''..'') stack"
proof (induction parts arbitrary: stack)
  case Nil
  then show ?case by simp
next
  case (Cons part parts)
  show ?case
  proof (cases "part = ''..''")
    case True
    have "resolve_parts (butlast stack) parts
            = take (length (butlast stack) - count_list parts ''..'') (butlast stack)"
      using Cons by simp
    also have "\<dots> = take (length stack - Suc (count_list parts ''..'')) stack"
      by (simp add: butlast_conv_take min_def)
    finally show ?thesis using True by (cases stack) auto
  next
    case False
    then show ?thesis using Cons by auto
  qed
qed

lemma strip_fixed: "strip_trailing_slash x = x \<Longrightarrow> x = [] \<or> last x \<noteq> CHR ''/''"
proof (rule ccontr)
  assume a: "strip_trailing_slash x = x" and n: "\<not> (x = [] \<or> last x \<noteq> CHR ''/'')"
  from n have ne: "x \<noteq> []" and l: "last x = CHR ''/''" by auto
  with a have "butlast x = x" by (simp add: strip_trailing_slash_def)
  then have "length x - 1 = length x" using length_butlast [of x] by simp
  moreover have "length x > 0" using ne by simp
  ultimately show False by linarith
qed

lemma resolveWithinJail_eq:
  assumes abs: "isAbsolute J" and clean: "cleanPath J = J"
  shows "resolveWithinJail J b p =
     (if prefix J (Path_resolve b p) then Path_resolve b p
      else if Path_resolve b p = ''/'' then J else J @ Path_resolve b p)"
proof -
  define r where "r = Path_resolve b p"
  have ra: "isAbsolute r" by (simp add: r_def resolve_abs)
  have rn: "no_double_slash r" by (simp add: r_def resolve_no_double_slash)
  have rt: "r = ''/'' \<or> strip_trailing_slash r = r" using resolve_no_trailing [of b p] by (simp add: r_def)
  have eq: "resolveWithinJail J b p =
      (let f = (if \<not> withinJail J r then collapse_slashes (J @ ''/'' @ r) else r)
       in if f = ''/'' then f else strip_trailing_slash f)"
    by (simp add: resolveWithinJail_def r_def)
  have w: "withinJail J r = prefix J r" using ra by (simp add: withinJail_def isRelative_def)
  show ?thesis
  proof (cases "prefix J r")
    case True
    then have "resolveWithinJail J b p = r" using rt w unfolding eq Let_def by auto
    then show ?thesis using True by (simp add: r_def)
  next
    case False
    have "J \<noteq> ''/''" using False ra by (auto simp: isAbsolute_def)
    then have J: "no_double_slash J" "J \<noteq> []" "last J \<noteq> CHR ''/''"
      using clean_jail_cases [OF clean] by auto
    obtain rest where rest: "r = CHR ''/'' # rest" using ra by (cases r) (auto simp: isAbsolute_def)
    have "collapse_slashes (''/'' @ r) = collapse_slashes r" using rest by simp
    then have z: "collapse_slashes (''/'' @ r) = r" using collapse_no_double_slash [OF rn] by simp
    have f: "collapse_slashes (J @ ''/'' @ r) = J @ r"
      using collapse_append [OF J, of "''/'' @ r"] z by simp
    have ne: "J @ r \<noteq> ''/''" using J(2) rest by (cases J) auto
    have res: "resolveWithinJail J b p = strip_trailing_slash (J @ r)"
      using False w ne unfolding eq Let_def f by simp
    show ?thesis
    proof (cases "r = ''/''")
      case True
      then show ?thesis using res False by (simp add: strip_trailing_slash_def r_def [symmetric])
    next
      case nr: False
      then have "strip_trailing_slash r = r" using rt by simp
      then have "last r \<noteq> CHR ''/''" using rest strip_fixed [of r] by auto
      then have "strip_trailing_slash (J @ r) = J @ r" using rest by (simp add: strip_trailing_slash_def)
      then show ?thesis using res False nr by (simp add: r_def [symmetric])
    qed
  qed
qed

lemma resolveWithinJail_reach:
  assumes abs: "isAbsolute J" and clean: "cleanPath J = J" and rel: "isRelative p"
    and parts: "set (split_slash p) \<subseteq> {''..'', ''.'', []}"
    and inside: "filter (\<lambda>part. length part > 0) (split_slash b)
                   = filter (\<lambda>part. length part > 0) (split_slash J) @ ws"
    and exact: "count_list (split_slash p) ''..'' = length ws"
  shows "resolveWithinJail J b p = J"
proof -
  have "resolve_parts (filter (\<lambda>part. length part > 0) (split_slash b)) (split_slash p)
          = filter (\<lambda>part. length part > 0) (split_slash J)"
    using resolve_parts_take [OF parts] inside exact by simp
  then have "Path_resolve b p = J"
    using rel normal_jail_parts [OF abs clean] by (simp add: Path_resolve_def isRelative_def)
  then show ?thesis using resolveWithinJail_eq [OF abs clean, of b p] by simp
qed

lemma split_slash_no_slash: "w \<in> set (split_slash x) \<Longrightarrow> CHR ''/'' \<notin> set w"
proof (induction x arbitrary: w)
  case Nil
  then show ?case by simp
next
  case (Cons c cs)
  obtain v vs where s: "split_slash cs = v # vs"
    using split_slash_nonempty [of cs] by (cases "split_slash cs") auto
  show ?case
  proof (cases "c = CHR ''/''")
    case True
    then show ?thesis using Cons by auto
  next
    case False
    then have "w = c # v \<or> w \<in> set vs" using Cons.prems s by simp
    then show ?thesis using Cons.IH s False by auto
  qed
qed

lemma split_slash_single: "CHR ''/'' \<notin> set w \<Longrightarrow> split_slash w = [w]"
  by (induction w) auto

lemma split_slash_append:
  "CHR ''/'' \<notin> set w \<Longrightarrow> split_slash (w @ CHR ''/'' # rest) = w # split_slash rest"
  by (induction w) auto

lemma split_join:
  "cs \<noteq> [] \<Longrightarrow> \<forall>w\<in>set cs. CHR ''/'' \<notin> set w \<Longrightarrow> split_slash (join_slash cs) = cs"
proof (induction cs rule: join_slash.induct)
  case 1
  then show ?case by simp
next
  case (2 w)
  then show ?case by (simp add: split_slash_single)
next
  case (3 w v ws)
  then show ?case by (simp add: split_slash_append)
qed

lemma split_path_of:
  "proper_parts cs \<Longrightarrow> split_slash (path_of cs) = [] # (if cs = [] then [[]] else cs)"
  using split_join [of cs] by (auto simp: path_of_def proper_parts_def list_all_iff)

lemma no_double_slash_plain_append:
  "CHR ''/'' \<notin> set w \<Longrightarrow> no_double_slash ys \<Longrightarrow> no_double_slash (w @ ys)"
proof (induction w)
  case Nil
  then show ?case by simp
next
  case (Cons c w)
  then show ?case by (cases "w @ ys") auto
qed

lemma join_proper:
  "cs \<noteq> [] \<Longrightarrow> proper_parts cs
   \<Longrightarrow> join_slash cs \<noteq> [] \<and> hd (join_slash cs) \<noteq> CHR ''/'' \<and> last (join_slash cs) \<noteq> CHR ''/''
       \<and> no_double_slash (join_slash cs)"
proof (induction cs rule: join_slash.induct)
  case 1
  then show ?case by simp
next
  case (2 w)
  then have w: "w \<noteq> []" "CHR ''/'' \<notin> set w" by (simp_all add: proper_parts_def)
  have "no_double_slash (w @ [])" by (rule no_double_slash_plain_append [OF w(2)]) simp
  moreover have "last w \<noteq> CHR ''/''" using w by (metis last_in_set)
  moreover have "hd w \<noteq> CHR ''/''" using w by (metis hd_in_set)
  ultimately show ?case using w by simp
next
  case (3 w v ws)
  then have w: "w \<noteq> []" "CHR ''/'' \<notin> set w" and rest: "proper_parts (v # ws)"
    by (simp_all add: proper_parts_def)
  from 3 rest have ih: "join_slash (v # ws) \<noteq> []" "hd (join_slash (v # ws)) \<noteq> CHR ''/''"
    "last (join_slash (v # ws)) \<noteq> CHR ''/''" "no_double_slash (join_slash (v # ws))"
    by simp_all
  have "no_double_slash (CHR ''/'' # join_slash (v # ws))"
    using ih by (cases "join_slash (v # ws)") auto
  then have "no_double_slash (w @ CHR ''/'' # join_slash (v # ws))"
    by (rule no_double_slash_plain_append [OF w(2)])
  moreover have "hd w \<noteq> CHR ''/''" using w by (metis hd_in_set)
  ultimately show ?case using w ih by simp
qed

lemma cleanPath_path_of: "proper_parts cs \<Longrightarrow> cleanPath (path_of cs) = path_of cs"
proof (cases "cs = []")
  case True
  then show ?thesis by (simp add: path_of_def cleanPath_def strip_trailing_slash_def)
next
  case False
  assume p: "proper_parts cs"
  note j = join_proper [OF False p]
  have "no_double_slash (path_of cs)" using j by (cases "join_slash cs") (auto simp: path_of_def)
  then have "collapse_slashes (path_of cs) = path_of cs" by (rule collapse_no_double_slash)
  moreover have "last (path_of cs) \<noteq> CHR ''/''" using j by (simp add: path_of_def)
  ultimately show ?thesis by (simp add: cleanPath_def strip_trailing_slash_def path_of_def)
qed

lemma resolve_path_of: "proper_parts cs \<Longrightarrow> Path_resolve ''/'' (path_of cs) = path_of cs"
  using cleanPath_path_of [of cs] by (simp add: Path_resolve_def isAbsolute_def path_of_def)

lemma join_path_of:
  assumes "plain_parts cs" "plain_parts [c]"
  shows "Path_join [path_of cs, c] = path_of (cs @ [c])"
proof -
  have c: "split_slash c = [c]" using assms(2) by (simp add: plain_parts_def proper_parts_def split_slash_single)
  have f: "filter (\<lambda>part. \<not> (part = [] \<or> part = ''.'')) (split_slash (path_of cs)) = cs"
    using assms(1) by (auto simp: split_path_of plain_parts_def proper_parts_def list_all_iff filter_id_conv)
  have "filter (\<lambda>part. \<not> (part = [] \<or> part = ''.'')) [c] = [c]"
    using assms(2) by (auto simp: plain_parts_def proper_parts_def)
  then show ?thesis using f c by (simp add: Path_join_def path_of_def)
qed

lemma join_path_of_empty:
  assumes "plain_parts cs"
  shows "Path_join [path_of cs, []] = path_of cs"
proof -
  have f: "filter (\<lambda>part. \<not> (part = [] \<or> part = ''.'')) (split_slash (path_of cs)) = cs"
    using assms(1) by (auto simp: split_path_of plain_parts_def proper_parts_def list_all_iff filter_id_conv)
  then show ?thesis by (simp add: Path_join_def path_of_def)
qed

lemma dirname_path_of:
  assumes "proper_parts cs" "proper_parts [c]"
  shows "Path_dirname (path_of (cs @ [c])) = path_of cs"
proof -
  have p: "proper_parts (cs @ [c])" using assms by (simp add: proper_parts_def)
  have s: "butlast (split_slash (path_of (cs @ [c]))) = [] # cs"
    using split_path_of [OF p] by (simp add: butlast_append)
  show ?thesis
  proof (cases cs)
    case Nil
    then show ?thesis using s by (simp add: Path_dirname_def isAbsolute_def path_of_def)
  next
    case (Cons v ws)
    then have "join_slash ([] # cs) = path_of cs" by (simp add: path_of_def)
    then show ?thesis using s Cons cleanPath_path_of [OF assms(1)] by (simp add: Path_dirname_def)
  qed
qed

lemma dirname_root: "Path_dirname ''/'' = ''/''"
  by (simp add: Path_dirname_def isAbsolute_def)

lemma path_of_length: "proper_parts [c] \<Longrightarrow> length (path_of cs) < length (path_of (cs @ [c]))"
  by (induction cs rule: join_slash.induct) (auto simp: path_of_def proper_parts_def)

lemma normal_path_parts:
  assumes abs: "isAbsolute x" and clean: "cleanPath x = x"
  shows "\<exists>cs. proper_parts cs \<and> x = path_of cs \<and> set cs \<subseteq> set (split_slash x)"
proof (cases "x = ''/''")
  case True
  then have "proper_parts [] \<and> x = path_of []" by (simp add: proper_parts_def path_of_def)
  then show ?thesis by auto
next
  case False
  then have J: "no_double_slash x" "x \<noteq> []" "last x \<noteq> CHR ''/''"
    using clean_jail_cases [OF clean] by auto
  from abs obtain rest where r: "x = CHR ''/'' # rest" by (cases x) (auto simp: isAbsolute_def)
  with False have rne: "rest \<noteq> []" by auto
  have rest: "no_double_slash rest" "last rest \<noteq> CHR ''/''" "hd rest \<noteq> CHR ''/''"
    using J r rne by (cases rest; auto)+
  have ne: "[] \<notin> set (split_slash rest)"
    using split_parts_nonempty [OF rest(1) rne rest(2)] rest(3) split_slash_nonempty [of rest]
    by (cases "split_slash rest") auto
  have "proper_parts (split_slash rest)"
    unfolding proper_parts_def list_all_iff using ne split_slash_no_slash [of _ rest] by auto
  moreover have "x = path_of (split_slash rest)" using r join_split [of rest] by (simp add: path_of_def)
  moreover have "set (split_slash rest) \<subseteq> set (split_slash x)" using r by auto
  ultimately show ?thesis by blast
qed

lemma normal_path_plain:
  assumes abs: "isAbsolute x" and clean: "cleanPath x = x" and nodot: "''.'' \<notin> set (split_slash x)"
  shows "\<exists>cs. plain_parts cs \<and> x = path_of cs"
  using normal_path_parts [OF abs clean] nodot unfolding plain_parts_def by blast

lemma join_append:
  "xs \<noteq> [] \<Longrightarrow> ys \<noteq> [] \<Longrightarrow> join_slash (xs @ ys) = join_slash xs @ CHR ''/'' # join_slash ys"
proof (induction xs rule: join_slash.induct)
  case 1
  then show ?case by simp
next
  case (2 w)
  then show ?case by (cases ys) simp_all
next
  case (3 w v ws)
  then show ?case by simp
qed

lemma resolve_parts_set:
  "set (resolve_parts st ps) \<subseteq> set st \<union> {w \<in> set ps. w \<noteq> ''..'' \<and> w \<noteq> ''.'' \<and> w \<noteq> []}"
proof (induction ps arbitrary: st)
  case Nil
  show ?case by simp
next
  case (Cons part ps)
  have b: "set (butlast st) \<subseteq> set st" by (auto dest: in_set_butlastD)
  show ?case using Cons [of "butlast st"] Cons [of st] Cons [of "st @ [part]"] b by auto
qed

lemma resolve_relative_parts:
  assumes rel: "isRelative p"
  shows "\<exists>st. proper_parts st \<and> Path_resolve b p = path_of st
           \<and> set st \<subseteq> set (split_slash b) \<union> (set (split_slash p) - {''..''})"
proof -
  define st where "st = resolve_parts (filter (\<lambda>part. length part > 0) (split_slash b)) (split_slash p)"
  have sub: "set st \<subseteq> {w \<in> set (split_slash b). w \<noteq> []} \<union> {w \<in> set (split_slash p). w \<noteq> ''..'' \<and> w \<noteq> ''.'' \<and> w \<noteq> []}"
    using resolve_parts_set [of "filter (\<lambda>part. length part > 0) (split_slash b)" "split_slash p"]
    by (auto simp: st_def)
  have pr: "proper_parts st"
    unfolding proper_parts_def list_all_iff
    using sub split_slash_no_slash [of _ b] split_slash_no_slash [of _ p] by blast
  have "Path_resolve b p = cleanPath (path_of st)"
    using rel by (simp add: Path_resolve_def isRelative_def st_def path_of_def)
  then have "Path_resolve b p = path_of st" using cleanPath_path_of [OF pr] by simp
  moreover have "set st \<subseteq> set (split_slash b) \<union> (set (split_slash p) - {''..''})" using sub by auto
  ultimately show ?thesis using pr by blast
qed

lemma resolveWithinJail_fixed:
  assumes abs: "isAbsolute d" and clean: "cleanPath d = d" and pre: "prefix J d"
  shows "resolveWithinJail J b d = d"
proof -
  have r: "Path_resolve b d = d" using abs clean by (simp add: Path_resolve_def)
  have w: "withinJail J d" using pre by (simp add: withinJail_def)
  have "d = ''/'' \<or> strip_trailing_slash d = d" using cleanPath_no_trailing [of d] clean by simp
  then show ?thesis using r w by (auto simp: resolveWithinJail_def Let_def)
qed

lemma inside_dir_prefix: "inside_dir J r \<Longrightarrow> prefix J r"
  by (auto simp: inside_dir_def prefix_def split: if_splits)

lemma resolveWithinJail_inside:
  assumes abs: "isAbsolute J" and clean: "cleanPath J = J"
    and r: "inside_dir J (Path_resolve b p) \<or> \<not> prefix J (Path_resolve b p)"
  shows "inside_dir J (resolveWithinJail J b p)"
proof (cases "prefix J (Path_resolve b p)")
  case True
  then have "resolveWithinJail J b p = Path_resolve b p"
    using resolveWithinJail_eq [OF abs clean, of b p] by simp
  then show ?thesis using r True by simp
next
  case False
  have ra: "isAbsolute (Path_resolve b p)" by (rule resolve_abs)
  then obtain rest where rest: "Path_resolve b p = CHR ''/'' # rest"
    by (cases "Path_resolve b p") (auto simp: isAbsolute_def)
  have J: "J \<noteq> ''/''" using False rest by auto
  have "resolveWithinJail J b p = (if Path_resolve b p = ''/'' then J else J @ Path_resolve b p)"
    using resolveWithinJail_eq [OF abs clean, of b p] False by simp
  then show ?thesis using J rest by (auto simp: inside_dir_def)
qed

lemma resolveWithinJail_no_dotdot:
  assumes abs: "isAbsolute J" and clean: "cleanPath J = J" and rel: "isRelative p"
    and nb: "''..'' \<notin> set (split_slash b)" and nj: "''..'' \<notin> set (split_slash J)"
  shows "''..'' \<notin> set (split_slash (resolveWithinJail J b p))"
proof -
  from resolve_relative_parts [OF rel, of b] obtain st where st: "proper_parts st"
    "Path_resolve b p = path_of st" "set st \<subseteq> set (split_slash b) \<union> (set (split_slash p) - {''..''})"
    by blast
  have nst: "''..'' \<notin> set st" using st(3) nb by auto
  have nr: "''..'' \<notin> set (split_slash (Path_resolve b p))"
    using split_path_of [OF st(1)] nst by (auto simp: st(2))
  show ?thesis
  proof (cases "prefix J (Path_resolve b p)")
    case True
    then show ?thesis using resolveWithinJail_eq [OF abs clean, of b p] nr by simp
  next
    case False
    show ?thesis
    proof (cases "Path_resolve b p = ''/''")
      case True
      then show ?thesis using resolveWithinJail_eq [OF abs clean, of b p] False nj by simp
    next
      case nroot: False
      have res: "resolveWithinJail J b p = J @ path_of st"
        using resolveWithinJail_eq [OF abs clean, of b p] False nroot by (simp add: st(2))
      from normal_path_parts [OF abs clean] obtain cj where cj: "proper_parts cj" "J = path_of cj"
        "set cj \<subseteq> set (split_slash J)" by blast
      have sne: "st \<noteq> []" using nroot st(2) by (auto simp: path_of_def)
      have "J \<noteq> ''/''" using False resolve_abs [of b p] by (auto simp: isAbsolute_def)
      then have cne: "cj \<noteq> []" using cj(2) by (auto simp: path_of_def)
      have "J @ path_of st = path_of (cj @ st)"
        using join_append [OF cne sne] cj(2) by (simp add: path_of_def)
      moreover have "proper_parts (cj @ st)" using cj(1) st(1) by (simp add: proper_parts_def)
      ultimately have "split_slash (resolveWithinJail J b p) = [] # cj @ st"
        using split_path_of [of "cj @ st"] cne res by simp
      then show ?thesis using nst cj(3) nj by auto
    qed
  qed
qed

text \<open>
  C1 (as amended). For an absolute jail \<open>J\<close> in normal form (\<open>cleanPath J = J\<close>: no
  doubled and no trailing slash), every base path \<open>b\<close> and every path argument \<open>p\<close>,
  with \<open>r\<close> the path that \<open>resolve\<close> makes of \<open>b\<close> and \<open>p\<close>:
  \<^item> when \<open>r\<close> lies within the directory \<open>J\<close> (it is \<open>J\<close>, or continues \<open>J\<close> after a
    slash), \<open>resolveWithinJail\<close> returns \<open>r\<close>;
  \<^item> when \<open>r\<close> does not start with the string \<open>J\<close>, it returns \<open>J\<close> if \<open>r\<close> is the root
    \<open>/\<close>, and otherwise \<open>r\<close> appended to \<open>J\<close>;
  \<^item> in both cases what it returns lies within the directory \<open>J\<close>;
  \<^item> when \<open>p\<close> is relative and neither \<open>b\<close> nor \<open>J\<close> has a part \<open>..\<close>, what it returns
    has no part \<open>..\<close>;
  \<^item> when \<open>p\<close> is relative, has only \<open>..\<close>, \<open>.\<close> and empty parts, and its \<open>..\<close> parts
    climb from the base path exactly to \<open>J\<close>, the result is \<open>J\<close>;
  \<^item> likewise when it has at least as many \<open>..\<close> parts as the base path has parts, so
    that \<open>resolve\<close> climbs to the root \<open>/\<close>.
  Nothing is said of an \<open>r\<close> that starts with the string \<open>J\<close> without lying within
  the directory \<open>J\<close>.
\<close>

theorem resolveWithinJail_contained:
  assumes "isAbsolute J" and "cleanPath J = J"
  shows "(inside_dir J (Path_resolve b p) \<longrightarrow> resolveWithinJail J b p = Path_resolve b p)
         \<and> (\<not> prefix J (Path_resolve b p)
              \<longrightarrow> resolveWithinJail J b p
                    = (if Path_resolve b p = ''/'' then J else J @ Path_resolve b p))
         \<and> (inside_dir J (Path_resolve b p) \<or> \<not> prefix J (Path_resolve b p)
              \<longrightarrow> inside_dir J (resolveWithinJail J b p))
         \<and> (isRelative p \<and> ''..'' \<notin> set (split_slash b) \<and> ''..'' \<notin> set (split_slash J)
              \<longrightarrow> ''..'' \<notin> set (split_slash (resolveWithinJail J b p)))
         \<and> (isRelative p \<and> set (split_slash p) \<subseteq> {''..'', ''.'', []}
              \<and> filter (\<lambda>part. length part > 0) (split_slash b)
                  = filter (\<lambda>part. length part > 0) (split_slash J) @ ws
              \<and> count_list (split_slash p) ''..'' = length ws
            \<longrightarrow> resolveWithinJail J b p = J)
         \<and> (isRelative p \<and> set (split_slash p) \<subseteq> {''..'', ''.'', []}
              \<and> length (filter (\<lambda>part. length part > 0) (split_slash b))
                  \<le> count_list (split_slash p) ''..''
            \<longrightarrow> resolveWithinJail J b p = J)"
proof (intro conjI impI)
  assume "inside_dir J (Path_resolve b p)"
  then show "resolveWithinJail J b p = Path_resolve b p"
    using resolveWithinJail_eq [OF assms, of b p] inside_dir_prefix [of J "Path_resolve b p"] by simp
next
  assume "\<not> prefix J (Path_resolve b p)"
  then show "resolveWithinJail J b p = (if Path_resolve b p = ''/'' then J else J @ Path_resolve b p)"
    using resolveWithinJail_eq [OF assms, of b p] by simp
next
  assume "inside_dir J (Path_resolve b p) \<or> \<not> prefix J (Path_resolve b p)"
  then show "inside_dir J (resolveWithinJail J b p)"
    by (rule resolveWithinJail_inside [OF assms])
next
  assume "isRelative p \<and> ''..'' \<notin> set (split_slash b) \<and> ''..'' \<notin> set (split_slash J)"
  then show "''..'' \<notin> set (split_slash (resolveWithinJail J b p))"
    using resolveWithinJail_no_dotdot [OF assms, of p b] by blast
next
  assume "isRelative p \<and> set (split_slash p) \<subseteq> {''..'', ''.'', []}
              \<and> filter (\<lambda>part. length part > 0) (split_slash b)
                  = filter (\<lambda>part. length part > 0) (split_slash J) @ ws
              \<and> count_list (split_slash p) ''..'' = length ws"
  then show "resolveWithinJail J b p = J"
    using resolveWithinJail_reach [OF assms, of p b ws] by blast
next
  assume "isRelative p \<and> set (split_slash p) \<subseteq> {''..'', ''.'', []}
              \<and> length (filter (\<lambda>part. length part > 0) (split_slash b))
                  \<le> count_list (split_slash p) ''..''"
  then show "resolveWithinJail J b p = J"
    using resolveWithinJail_clamp [OF assms, of p b] by blast
qed

theorem resolveWithinJail_contained_witness:
  "isAbsolute ''/path/to/jail'' \<and> cleanPath ''/path/to/jail'' = ''/path/to/jail''
   \<and> inside_dir ''/path/to/jail'' (Path_resolve ''/path/to/jail/w'' ''../x/y'')
   \<and> resolveWithinJail ''/path/to/jail'' ''/path/to/jail/w'' ''../x/y'' = Path_resolve ''/path/to/jail/w'' ''../x/y''
   \<and> inside_dir ''/path/to/jail'' (resolveWithinJail ''/path/to/jail'' ''/path/to/jail/w'' ''../x/y'')
   \<and> isRelative ''../x/y'' \<and> ''..'' \<notin> set (split_slash ''/path/to/jail/w'')
   \<and> ''..'' \<notin> set (split_slash ''/path/to/jail'')
   \<and> ''..'' \<notin> set (split_slash (resolveWithinJail ''/path/to/jail'' ''/path/to/jail/w'' ''../x/y''))
   \<and> \<not> prefix ''/path/to/jail'' (Path_resolve ''/path/to/jail'' ''../../a'')
   \<and> resolveWithinJail ''/path/to/jail'' ''/path/to/jail'' ''../../a''
        = (if Path_resolve ''/path/to/jail'' ''../../a'' = ''/'' then ''/path/to/jail''
           else ''/path/to/jail'' @ Path_resolve ''/path/to/jail'' ''../../a'')
   \<and> inside_dir ''/path/to/jail'' (resolveWithinJail ''/path/to/jail'' ''/path/to/jail'' ''../../a'')
   \<and> isRelative ''../..'' \<and> set (split_slash ''../..'') \<subseteq> {''..'', ''.'', []}
   \<and> filter (\<lambda>part. length part > 0) (split_slash ''/path/to/jail/w/x'')
        = filter (\<lambda>part. length part > 0) (split_slash ''/path/to/jail'') @ [''w'', ''x'']
   \<and> count_list (split_slash ''../..'') ''..'' = length [''w'', ''x'']
   \<and> resolveWithinJail ''/path/to/jail'' ''/path/to/jail/w/x'' ''../..'' = ''/path/to/jail''
   \<and> isRelative ''../../../../..''
   \<and> set (split_slash ''../../../../..'') \<subseteq> {''..'', ''.'', []}
   \<and> length (filter (\<lambda>part. length part > 0) (split_slash ''/path/to/jail/w''))
        \<le> count_list (split_slash ''../../../../..'') ''..''
   \<and> resolveWithinJail ''/path/to/jail'' ''/path/to/jail/w'' ''../../../../..'' = ''/path/to/jail''"
proof -
  have a: "isAbsolute ''/path/to/jail''" by code_simp
  have c: "cleanPath ''/path/to/jail'' = ''/path/to/jail''" by code_simp
  have i0: "inside_dir ''/path/to/jail'' (Path_resolve ''/path/to/jail/w'' ''../x/y'')" by code_simp
  have r0: "isRelative ''../x/y''" by code_simp
  have d0: "''..'' \<notin> set (split_slash ''/path/to/jail/w'')" by code_simp
  have dj: "''..'' \<notin> set (split_slash ''/path/to/jail'')" by code_simp
  have np: "\<not> prefix ''/path/to/jail'' (Path_resolve ''/path/to/jail'' ''../../a'')" by code_simp
  have r1: "isRelative ''../..''" by code_simp
  have s1: "set (split_slash ''../..'') \<subseteq> {''..'', ''.'', []}" by simp
  have i1: "filter (\<lambda>part. length part > 0) (split_slash ''/path/to/jail/w/x'')
        = filter (\<lambda>part. length part > 0) (split_slash ''/path/to/jail'') @ [''w'', ''x'']"
    by simp
  have n1: "count_list (split_slash ''../..'') ''..'' = length [''w'', ''x'']" by simp
  have r2: "isRelative ''../../../../..''" by code_simp
  have s2: "set (split_slash ''../../../../..'') \<subseteq> {''..'', ''.'', []}" by simp
  have n2: "length (filter (\<lambda>part. length part > 0) (split_slash ''/path/to/jail/w''))
        \<le> count_list (split_slash ''../../../../..'') ''..''" by simp
  note t0 = resolveWithinJail_contained [OF a c, of "''/path/to/jail/w''" "''../x/y''"]
  note t3 = resolveWithinJail_contained [OF a c, of "''/path/to/jail''" "''../../a''"]
  note t1 = resolveWithinJail_contained [OF a c, of "''/path/to/jail/w/x''" "''../..''" "[''w'', ''x'']"]
  note t2 = resolveWithinJail_contained [OF a c, of "''/path/to/jail/w''" "''../../../../..''"]
  have e0: "resolveWithinJail ''/path/to/jail'' ''/path/to/jail/w'' ''../x/y'' = Path_resolve ''/path/to/jail/w'' ''../x/y''"
    using t0 i0 by blast
  have e0': "inside_dir ''/path/to/jail'' (resolveWithinJail ''/path/to/jail'' ''/path/to/jail/w'' ''../x/y'')"
    using t0 i0 by blast
  have e0'': "''..'' \<notin> set (split_slash (resolveWithinJail ''/path/to/jail'' ''/path/to/jail/w'' ''../x/y''))"
    using t0 r0 d0 dj by blast
  have e3: "resolveWithinJail ''/path/to/jail'' ''/path/to/jail'' ''../../a''
        = (if Path_resolve ''/path/to/jail'' ''../../a'' = ''/'' then ''/path/to/jail''
           else ''/path/to/jail'' @ Path_resolve ''/path/to/jail'' ''../../a'')"
    using t3 np by blast
  have e3': "inside_dir ''/path/to/jail'' (resolveWithinJail ''/path/to/jail'' ''/path/to/jail'' ''../../a'')"
    using t3 np by blast
  have e1: "resolveWithinJail ''/path/to/jail'' ''/path/to/jail/w/x'' ''../..'' = ''/path/to/jail''"
    using t1 r1 s1 i1 n1 by blast
  have e2: "resolveWithinJail ''/path/to/jail'' ''/path/to/jail/w'' ''../../../../..'' = ''/path/to/jail''"
    using t2 r2 s2 n2 by blast
  from a c i0 e0 e0' r0 d0 dj e0'' np e3 e3' r1 s1 i1 n1 e1 r2 s2 n2 e2 show ?thesis by (intro conjI)
qed

text \<open>
  C1 as stated fails: with the jail \<open>/a/b\<close>, the base path \<open>/a/b\<close> (depth 0 inside the
  jail) and the relative path \<open>..\<close>, the result is \<open>/a/b/a\<close>, not the jail. (And a
  jail written with a trailing slash is not a prefix of what is returned for it.)
\<close>

theorem resolveWithinJail_not_clamped:
  "isAbsolute ''/a/b'' \<and> isRelative ''..''
   \<and> resolveWithinJail ''/a/b'' ''/a/b'' ''..'' = ''/a/b/a''
   \<and> resolveWithinJail ''/a/b'' ''/a/b'' ''..'' \<noteq> ''/a/b''
   \<and> resolveWithinJail ''/a/'' ''/a/'' ''..'' = ''/a''"
  by code_simp

text \<open>
  \<open>withinJail\<close> compares strings, \<open>path.startsWith(jail)\<close>: a name beside the jail that
  begins with the name of the jail passes the test, and \<open>resolveWithinJail\<close> returns
  the path as it is, outside the directory of the jail.
\<close>

lemma resolveWithinJail_sibling_name:
  "isAbsolute ''/jail'' \<and> isRelative ''../jailbreak''
   \<and> Path_resolve ''/jail'' ''../jailbreak'' = ''/jailbreak''
   \<and> withinJail ''/jail'' ''/jailbreak''
   \<and> \<not> inside_dir ''/jail'' ''/jailbreak''
   \<and> resolveWithinJail ''/jail'' ''/jail'' ''../jailbreak'' = ''/jailbreak''"
  by code_simp

section \<open>A returned error changes nothing\<close>

lemma rebuildIndex_not_Err: "fst (rebuildIndex fs) \<noteq> Err e"
  by (simp add: rebuildIndex_def Let_def)

lemma addNode_not_Err: "fst (addNode n ts rb fs) \<noteq> Err e"
  by (simp add: addNode_def Let_def rebuildIndex_not_Err split: lookup.splits FsNode.splits)

lemma mkdir_loop_not_Err: "fst (mkdir_loop ps ts fs) \<noteq> Err e"
proof (induction ps arbitrary: fs)
  case Nil
  show ?case by simp
next
  case (Cons p ps)
  show ?case
  proof (cases "getNode fs p = Null")
    case False
    then show ?thesis using Cons.IH by simp
  next
    case True
    obtain r fs1 where a: "addNode (FsDirNode p [] (fresh_stats ts)) ts False fs = (r, fs1)"
      by (cases "addNode (FsDirNode p [] (fresh_stats ts)) ts False fs")
    have "r \<noteq> Err e" using addNode_not_Err [of "FsDirNode p [] (fresh_stats ts)" ts False fs e] a by simp
    then show ?thesis using True a Cons.IH [of fs1] by (cases r) simp_all
  qed
qed

lemma mkdir_Err_unchanged:
  "fst (MemoryFs_mkdir ctx p opts now fs) = Err e \<Longrightarrow> snd (MemoryFs_mkdir ctx p opts now fs) = fs"
  unfolding MemoryFs_mkdir_def Let_def
  using addNode_not_Err mkdir_loop_not_Err rebuildIndex_not_Err
  by (auto split: lookup.splits FsNode.splits if_splits prod.splits outcome.splits) (metis fst_conv)+

lemma read_Err_unchanged:
  "fst (MemoryFs_read ctx p now fs) = Err e \<Longrightarrow> snd (MemoryFs_read ctx p now fs) = fs"
  unfolding MemoryFs_read_def Let_def
  by (auto split: lookup.splits FsNode.splits)

lemma utimes_Err_unchanged:
  "fst (MemoryFs_utimes ctx p st fs) = Err e \<Longrightarrow> snd (MemoryFs_utimes ctx p st fs) = fs"
  unfolding MemoryFs_utimes_def Let_def
  by (auto split: lookup.splits)

lemma write_Err_unchanged:
  "fst (MemoryFs_write ctx p c opts now fs) = Err e \<Longrightarrow> snd (MemoryFs_write ctx p c opts now fs) = fs"
  unfolding MemoryFs_write_def Let_def
  using addNode_not_Err mkdir_Err_unchanged
  by (auto split: lookup.splits FsNode.splits if_splits prod.splits outcome.splits) (metis fst_conv snd_conv)+

lemma rm_delete_not_Err: "fst (rm_delete n p ts rb fs) \<noteq> Err e"
  by (simp add: rm_delete_def Let_def rebuildIndex_not_Err split: option.splits lookup.splits FsNode.splits)

lemma rm_children_not_Err: "fst (rm_children k ctx ns ts now fs) \<noteq> Err e"
proof (induction ns arbitrary: fs)
  case Nil
  show ?case by simp
next
  case (Cons n ns)
  obtain r fs1 where a: "MemoryFs_rm k ctx n
             \<lparr>recursive = Some True, timestamp = Some ts, rebuildIndexOpt = Some False\<rparr> now fs = (r, fs1)"
    by (cases "MemoryFs_rm k ctx n
             \<lparr>recursive = Some True, timestamp = Some ts, rebuildIndexOpt = Some False\<rparr> now fs")
  show ?case using a Cons.IH [of fs1] by (cases r) simp_all
qed

lemma rm_Err_unchanged:
  "fst (MemoryFs_rm k ctx p opts now fs) = Err e \<Longrightarrow> snd (MemoryFs_rm k ctx p opts now fs) = fs"
proof (cases k)
  case 0
  then show "fst (MemoryFs_rm k ctx p opts now fs) = Err e \<Longrightarrow> ?thesis" by simp
next
  case (Suc j)
  assume "fst (MemoryFs_rm k ctx p opts now fs) = Err e"
  then show ?thesis
    using rm_delete_not_Err rm_children_not_Err unfolding Suc
    by (auto simp: Let_def split: lookup.splits FsNode.splits if_splits prod.splits outcome.splits)
       (metis fst_conv)+
qed

lemma rmdir_Err_unchanged:
  "fst (MemoryFs_rmdir k ctx p opts now fs) = Err e \<Longrightarrow> snd (MemoryFs_rmdir k ctx p opts now fs) = fs"
  unfolding MemoryFs_rmdir_def Let_def
  using rm_Err_unchanged
  by (auto split: lookup.splits FsNode.splits if_splits)

text \<open>
  C10. Whenever \<open>read\<close>, \<open>write\<close>, \<open>mkdir\<close>, \<open>rm\<close>, \<open>rmdir\<close> or \<open>utimes\<close> of the
  engine returns a typed \<open>StoreErr\<close>, the \<open>Fs\<close> it leaves is the \<open>Fs\<close> it was called
  on: nodes, children, index and timestamps are all as before. (\<open>stats\<close> assigns to
  nothing, which is why its model returns no \<open>Fs\<close>.)
\<close>

theorem store_error_leaves_tree_unchanged:
  "(fst (MemoryFs_read ctx p now fs) = Err e \<longrightarrow> snd (MemoryFs_read ctx p now fs) = fs)
   \<and> (fst (MemoryFs_write ctx p c opts now fs) = Err e
        \<longrightarrow> snd (MemoryFs_write ctx p c opts now fs) = fs)
   \<and> (fst (MemoryFs_mkdir ctx p opts now fs) = Err e
        \<longrightarrow> snd (MemoryFs_mkdir ctx p opts now fs) = fs)
   \<and> (fst (MemoryFs_rm k ctx p opts now fs) = Err e
        \<longrightarrow> snd (MemoryFs_rm k ctx p opts now fs) = fs)
   \<and> (fst (MemoryFs_rmdir k ctx p opts now fs) = Err e
        \<longrightarrow> snd (MemoryFs_rmdir k ctx p opts now fs) = fs)
   \<and> (fst (MemoryFs_utimes ctx p st fs) = Err e \<longrightarrow> snd (MemoryFs_utimes ctx p st fs) = fs)"
proof (intro conjI impI)
  show "fst (MemoryFs_read ctx p now fs) = Err e \<Longrightarrow> snd (MemoryFs_read ctx p now fs) = fs"
    by (rule read_Err_unchanged)
  show "fst (MemoryFs_write ctx p c opts now fs) = Err e
        \<Longrightarrow> snd (MemoryFs_write ctx p c opts now fs) = fs"
    by (rule write_Err_unchanged)
  show "fst (MemoryFs_mkdir ctx p opts now fs) = Err e
        \<Longrightarrow> snd (MemoryFs_mkdir ctx p opts now fs) = fs"
    by (rule mkdir_Err_unchanged)
  show "fst (MemoryFs_rm k ctx p opts now fs) = Err e
        \<Longrightarrow> snd (MemoryFs_rm k ctx p opts now fs) = fs"
    by (rule rm_Err_unchanged)
  show "fst (MemoryFs_rmdir k ctx p opts now fs) = Err e
        \<Longrightarrow> snd (MemoryFs_rmdir k ctx p opts now fs) = fs"
    by (rule rmdir_Err_unchanged)
  show "fst (MemoryFs_utimes ctx p st fs) = Err e \<Longrightarrow> snd (MemoryFs_utimes ctx p st fs) = fs"
    by (rule utimes_Err_unchanged)
qed

theorem store_error_leaves_tree_unchanged_witness:
  "fst (MemoryFs_read memory_context ''/a'' 5 (MemoryFs_empty ''/'' 0)) = Err FILE_NOT_FOUND
   \<and> snd (MemoryFs_read memory_context ''/a'' 5 (MemoryFs_empty ''/'' 0)) = MemoryFs_empty ''/'' 0
   \<and> fst (MemoryFs_write memory_context ''/'' ''x'' no_options 5 (MemoryFs_empty ''/'' 0)) = Err PATH_NOT_FOUND
   \<and> snd (MemoryFs_write memory_context ''/'' ''x'' no_options 5 (MemoryFs_empty ''/'' 0)) = MemoryFs_empty ''/'' 0
   \<and> fst (MemoryFs_mkdir memory_context ''/a'' no_options 5 engine_with_a) = Err FILE_EXISTS
   \<and> snd (MemoryFs_mkdir memory_context ''/a'' no_options 5 engine_with_a) = engine_with_a
   \<and> fst (MemoryFs_rm 1 memory_context ''/'' no_options 5 (MemoryFs_empty ''/'' 0)) = Err DIR_EXISTS
   \<and> snd (MemoryFs_rm 1 memory_context ''/'' no_options 5 (MemoryFs_empty ''/'' 0)) = MemoryFs_empty ''/'' 0
   \<and> fst (MemoryFs_rmdir 1 memory_context ''/a'' no_options 5 engine_with_a) = Err PATH_NOT_FOUND
   \<and> snd (MemoryFs_rmdir 1 memory_context ''/a'' no_options 5 engine_with_a) = engine_with_a
   \<and> fst (MemoryFs_utimes memory_context ''/a'' (only_mtime 5) (MemoryFs_empty ''/'' 0)) = Err PATH_NOT_FOUND
   \<and> snd (MemoryFs_utimes memory_context ''/a'' (only_mtime 5) (MemoryFs_empty ''/'' 0)) = MemoryFs_empty ''/'' 0"
proof -
  have r: "fst (MemoryFs_read memory_context ''/a'' 5 (MemoryFs_empty ''/'' 0)) = Err FILE_NOT_FOUND"
    by code_simp
  have w: "fst (MemoryFs_write memory_context ''/'' ''x'' no_options 5 (MemoryFs_empty ''/'' 0)) = Err PATH_NOT_FOUND"
    by code_simp
  have m: "fst (MemoryFs_mkdir memory_context ''/a'' no_options 5 engine_with_a) = Err FILE_EXISTS"
    by code_simp
  have d: "fst (MemoryFs_rm 1 memory_context ''/'' no_options 5 (MemoryFs_empty ''/'' 0)) = Err DIR_EXISTS"
    by code_simp
  have rd: "fst (MemoryFs_rmdir 1 memory_context ''/a'' no_options 5 engine_with_a) = Err PATH_NOT_FOUND"
    by code_simp
  have u: "fst (MemoryFs_utimes memory_context ''/a'' (only_mtime 5) (MemoryFs_empty ''/'' 0)) = Err PATH_NOT_FOUND"
    by code_simp
  note t = store_error_leaves_tree_unchanged
  have "snd (MemoryFs_read memory_context ''/a'' 5 (MemoryFs_empty ''/'' 0)) = MemoryFs_empty ''/'' 0"
    using r t [of memory_context "''/a''" 5 "MemoryFs_empty ''/'' 0" FILE_NOT_FOUND] by simp
  moreover have "snd (MemoryFs_write memory_context ''/'' ''x'' no_options 5 (MemoryFs_empty ''/'' 0)) = MemoryFs_empty ''/'' 0"
    using w t [of memory_context "''/''" 5 "MemoryFs_empty ''/'' 0" PATH_NOT_FOUND "''x''" no_options] by simp
  moreover have "snd (MemoryFs_mkdir memory_context ''/a'' no_options 5 engine_with_a) = engine_with_a"
    using m t [of memory_context "''/a''" 5 engine_with_a FILE_EXISTS _ no_options] by simp
  moreover have "snd (MemoryFs_rm 1 memory_context ''/'' no_options 5 (MemoryFs_empty ''/'' 0)) = MemoryFs_empty ''/'' 0"
    using d t [of memory_context "''/''" 5 "MemoryFs_empty ''/'' 0" DIR_EXISTS _ no_options 1] by simp
  moreover have "snd (MemoryFs_rmdir 1 memory_context ''/a'' no_options 5 engine_with_a) = engine_with_a"
    using rd t [of memory_context "''/a''" 5 engine_with_a PATH_NOT_FOUND _ no_options 1] by simp
  moreover have "snd (MemoryFs_utimes memory_context ''/a'' (only_mtime 5) (MemoryFs_empty ''/'' 0)) = MemoryFs_empty ''/'' 0"
    using u t [of memory_context "''/a''" 5 "MemoryFs_empty ''/'' 0" PATH_NOT_FOUND _ _ _ "only_mtime 5"] by simp
  ultimately show ?thesis using r w m d rd u by simp
qed


section \<open>The index invariant\<close>

lemma getNode_Node_iff:
  "getNode fs q = Node i n \<longleftrightarrow>
     index fs (Path_resolve ''/'' q) = Some i \<and> i < length (nodes fs) \<and> nodes fs ! i = Some n"
  by (auto simp: getNode_def split: option.splits)

lemma getNode_Null_iff: "getNode fs q = Null \<longleftrightarrow> index fs (Path_resolve ''/'' q) = None"
  by (auto simp: getNode_def split: option.splits)

lemma index_consistent_empty: "index_consistent (MemoryFs_empty root t)"
  by (auto simp: index_consistent_def MemoryFs_empty_def split: if_splits)

lemma index_consistent_put_node:
  assumes "index_consistent fs" "nodes fs ! k = Some old" "node_path m = node_path old"
  shows "index_consistent (put_node k m fs)"
  unfolding index_consistent_def
proof (intro allI impI)
  fix q i
  assume "index (put_node k m fs) q = Some i"
  then have a: "index fs q = Some i" by (simp add: put_node_def)
  with assms(1) have b: "i < length (nodes fs)" "\<forall>n. nodes fs ! i = Some n \<longrightarrow> node_path n = q"
    unfolding index_consistent_def by auto
  show "i < length (nodes (put_node k m fs))
        \<and> (\<forall>n. nodes (put_node k m fs) ! i = Some n \<longrightarrow> node_path n = q)"
    using b assms(2,3) by (cases "i = k") (auto simp: put_node_def)
qed

lemma index_consistent_put_found:
  assumes "index_consistent fs" "getNode fs q = Node k old" "node_path m = node_path old"
  shows "index_consistent (put_node k m fs)"
  using assms(2) index_consistent_put_node [OF assms(1) _ assms(3)] by (simp add: getNode_Node_iff)

lemma index_consistent_delete:
  assumes "index_consistent fs"
  shows "index_consistent (fs\<lparr>nodes := (nodes fs)[k := None]\<rparr>)"
  unfolding index_consistent_def
proof (intro allI impI)
  fix q i
  assume "index (fs\<lparr>nodes := (nodes fs)[k := None]\<rparr>) q = Some i"
  then have a: "index fs q = Some i" by simp
  with assms have b: "i < length (nodes fs)" "\<forall>n. nodes fs ! i = Some n \<longrightarrow> node_path n = q"
    unfolding index_consistent_def by auto
  show "i < length (nodes (fs\<lparr>nodes := (nodes fs)[k := None]\<rparr>))
        \<and> (\<forall>n. nodes (fs\<lparr>nodes := (nodes fs)[k := None]\<rparr>) ! i = Some n \<longrightarrow> node_path n = q)"
    using b by (cases "i = k") auto
qed

lemma index_consistent_append:
  assumes "index_consistent fs"
  shows "index_consistent (fs\<lparr>index := (index fs)(node_path node \<mapsto> length (nodes fs)),
                        nodes := nodes fs @ [Some node]\<rparr>)"
  unfolding index_consistent_def
proof (intro allI impI)
  fix q i
  let ?fs1 = "fs\<lparr>index := (index fs)(node_path node \<mapsto> length (nodes fs)),
                 nodes := nodes fs @ [Some node]\<rparr>"
  assume a: "index ?fs1 q = Some i"
  show "i < length (nodes ?fs1) \<and> (\<forall>n. nodes ?fs1 ! i = Some n \<longrightarrow> node_path n = q)"
  proof (cases "q = node_path node")
    case True
    then show ?thesis using a by auto
  next
    case False
    then have "index fs q = Some i" using a by simp
    with assms have b: "i < length (nodes fs)" "\<forall>n. nodes fs ! i = Some n \<longrightarrow> node_path n = q"
      unfolding index_consistent_def by auto
    then show ?thesis by (auto simp: nth_append)
  qed
qed

lemma fold_index:
  "fold index_entry (enumerate k xs) m q = Some i
   \<Longrightarrow> m q = Some i \<or> (k \<le> i \<and> i < k + length xs \<and> node_path (xs ! (i - k)) = q)"
proof (induction xs arbitrary: k m)
  case Nil
  then show ?case by simp
next
  case (Cons x xs)
  from Cons.prems have
    "fold index_entry (enumerate (Suc k) xs) (index_entry (k, x) m) q = Some i"
    by simp
  from Cons.IH [OF this] show ?case
  proof
    assume "index_entry (k, x) m q = Some i"
    then show ?thesis by (auto simp: index_entry_def split: if_splits)
  next
    assume a: "Suc k \<le> i \<and> i < Suc k + length xs \<and> node_path (xs ! (i - Suc k)) = q"
    then have "(x # xs) ! (i - k) = xs ! (i - Suc k)" by (simp add: nth_Cons')
    with a show ?thesis by auto
  qed
qed

lemma index_consistent_rebuildIndex: "index_consistent (snd (rebuildIndex fs))"
proof -
  define live where "live = sort_key node_path (map the (filter (\<lambda>n. n \<noteq> None) (nodes fs)))"
  define holes where "holes = length (filter (\<lambda>n. n = None) (nodes fs))"
  have res: "snd (rebuildIndex fs) =
      fs\<lparr>nodes := map Some live @ replicate holes None,
         index := fold index_entry (enumerate 0 live) Map.empty\<rparr>"
    by (simp add: rebuildIndex_def Let_def live_def holes_def)
  show ?thesis
    unfolding index_consistent_def res
  proof (intro allI impI)
    fix q i
    assume "index (fs\<lparr>nodes := map Some live @ replicate holes None,
         index := fold index_entry (enumerate 0 live) Map.empty\<rparr>) q = Some i"
    then have "fold index_entry (enumerate 0 live) Map.empty q = Some i" by simp
    from fold_index [OF this] have "i < length live" "node_path (live ! i) = q" by auto
    then show "i < length (nodes (fs\<lparr>nodes := map Some live @ replicate holes None,
         index := fold index_entry (enumerate 0 live) Map.empty\<rparr>))
       \<and> (\<forall>n. nodes (fs\<lparr>nodes := map Some live @ replicate holes None,
         index := fold index_entry (enumerate 0 live) Map.empty\<rparr>) ! i = Some n \<longrightarrow> node_path n = q)"
      by (auto simp: nth_append)
  qed
qed

lemma index_consistent_addNode:
  assumes "index_consistent fs"
  shows "index_consistent (snd (addNode node ts rb fs))"
proof -
  define fs1 where "fs1 = fs\<lparr>index := (index fs)(node_path node \<mapsto> length (nodes fs)),
                        nodes := nodes fs @ [Some node]\<rparr>"
  have 1: "index_consistent fs1" unfolding fs1_def by (rule index_consistent_append [OF assms])
  show ?thesis
  proof (cases "getNode fs1 (Path_dirname (node_path node))")
    case (Node j parent)
    show ?thesis
    proof (cases parent)
      case (FsDirNode pp ch pst)
      have 2: "index_consistent (put_node j (FsDirNode pp (sort (ch @ [node_path node])) (pst\<lparr>mtime := Some ts\<rparr>)) fs1)"
        using index_consistent_put_found [OF 1 Node] FsDirNode by simp
      show ?thesis using Node FsDirNode 2 index_consistent_rebuildIndex
        by (simp add: addNode_def Let_def fs1_def [symmetric])
    next
      case (FsFileNode c fp st)
      then show ?thesis using Node 1 by (simp add: addNode_def Let_def fs1_def [symmetric])
    qed
  qed (use 1 in \<open>simp_all add: addNode_def Let_def fs1_def [symmetric]\<close>)
qed

lemma index_consistent_mkdir_loop:
  "index_consistent fs \<Longrightarrow> index_consistent (snd (mkdir_loop ps ts fs))"
proof (induction ps arbitrary: fs)
  case Nil
  then show ?case by simp
next
  case (Cons p ps)
  show ?case
  proof (cases "getNode fs p = Null")
    case False
    then show ?thesis using Cons by simp
  next
    case True
    obtain r fs1 where a: "addNode (FsDirNode p [] (fresh_stats ts)) ts False fs = (r, fs1)"
      by (cases "addNode (FsDirNode p [] (fresh_stats ts)) ts False fs")
    have "index_consistent fs1"
      using index_consistent_addNode [OF Cons.prems, of "FsDirNode p [] (fresh_stats ts)" ts False] a by simp
    then show ?thesis using True a Cons.IH [of fs1] by (cases r) simp_all
  qed
qed

lemma index_consistent_mkdir:
  assumes "index_consistent fs"
  shows "index_consistent (snd (MemoryFs_mkdir ctx p opts now fs))"
proof -
  define rp where "rp = resolveWithinJail (jail ctx) (pwd ctx) p"
  define ts where "ts = or_now (timestamp opts) now"
  obtain r fs1 where l: "mkdir_loop (getPaths rp) ts fs = (r, fs1)"
    by (cases "mkdir_loop (getPaths rp) ts fs")
  have 1: "index_consistent fs1" using index_consistent_mkdir_loop [OF assms, of "getPaths rp" ts] l by simp
  have 2: "index_consistent (snd (case r of Ok u \<Rightarrow> rebuildIndex fs1 | _ \<Rightarrow> (r, fs1)))"
    using 1 index_consistent_rebuildIndex by (cases r) simp_all
  show ?thesis
    unfolding MemoryFs_mkdir_def Let_def rp_def [symmetric] ts_def [symmetric]
    using assms index_consistent_addNode [OF assms] 2 l
    by (auto split: lookup.splits FsNode.splits outcome.splits)
qed

lemma index_consistent_write:
  assumes "index_consistent fs"
  shows "index_consistent (snd (MemoryFs_write ctx p c opts now fs))"
proof -
  define rp where "rp = resolveWithinJail (jail ctx) (pwd ctx) p"
  define ts where "ts = or_now (timestamp opts) now"
  define rec where "rec = (case recursive opts of Some r \<Rightarrow> r | None \<Rightarrow> True)"
  note defs = rp_def [symmetric] ts_def [symmetric] rec_def [symmetric]
  note add = index_consistent_addNode [of _ "FsFileNode c rp (fresh_stats ts)" ts False]
  show ?thesis
  proof (cases "getNode fs rp")
    case (Node i n)
    show ?thesis
    proof (cases n)
      case (FsDirNode dp ch st)
      then show ?thesis using Node assms by (simp add: MemoryFs_write_def Let_def defs)
    next
      case (FsFileNode old fp st)
      define fs1 where "fs1 = put_node i (FsFileNode c fp (st\<lparr>mtime := Some ts\<rparr>)) fs"
      have 1: "index_consistent fs1"
        unfolding fs1_def using index_consistent_put_found [OF assms Node] FsFileNode by simp
      have w: "MemoryFs_write ctx p c opts now fs =
         (case getParent fs1 rp of
            Node j (FsDirNode pp children pst) \<Rightarrow>
              (Ok (), put_node j (FsDirNode pp children (pst\<lparr>mtime := Some ts\<rparr>)) fs1)
          | _ \<Rightarrow> (Thrown, fs1))"
        using Node FsFileNode unfolding fs1_def by (simp add: MemoryFs_write_def Let_def defs)
      show ?thesis
      proof (cases "getParent fs1 rp")
        case (Node j parent)
        then show ?thesis
          using w 1 index_consistent_put_found [OF 1 Node [unfolded getParent_def]]
          by (cases parent) simp_all
      qed (use w 1 in simp_all)
    qed
  next
    case Null
    show ?thesis
    proof (cases "rec \<and> getParent fs rp = Null")
      case True
      obtain r fs1 where m: "MemoryFs_mkdir ctx (Path_dirname rp)
           \<lparr>recursive = Some rec, timestamp = Some ts, rebuildIndexOpt = None\<rparr> now fs = (r, fs1)"
        by (cases "MemoryFs_mkdir ctx (Path_dirname rp)
           \<lparr>recursive = Some rec, timestamp = Some ts, rebuildIndexOpt = None\<rparr> now fs")
      have 1: "index_consistent fs1" using index_consistent_mkdir [OF assms, of ctx "Path_dirname rp"
           "\<lparr>recursive = Some rec, timestamp = Some ts, rebuildIndexOpt = None\<rparr>" now] m by simp
      show ?thesis using Null True m 1 add [OF 1]
        by (auto simp: MemoryFs_write_def Let_def defs split: outcome.splits lookup.splits FsNode.splits)
    next
      case False
      then show ?thesis using Null assms add [OF assms]
        by (auto simp: MemoryFs_write_def Let_def defs split: lookup.splits FsNode.splits)
    qed
  next
    case Undefined
    show ?thesis
    proof (cases "rec \<and> getParent fs rp = Null")
      case True
      obtain r fs1 where m: "MemoryFs_mkdir ctx (Path_dirname rp)
           \<lparr>recursive = Some rec, timestamp = Some ts, rebuildIndexOpt = None\<rparr> now fs = (r, fs1)"
        by (cases "MemoryFs_mkdir ctx (Path_dirname rp)
           \<lparr>recursive = Some rec, timestamp = Some ts, rebuildIndexOpt = None\<rparr> now fs")
      have 1: "index_consistent fs1" using index_consistent_mkdir [OF assms, of ctx "Path_dirname rp"
           "\<lparr>recursive = Some rec, timestamp = Some ts, rebuildIndexOpt = None\<rparr>" now] m by simp
      show ?thesis using Undefined True m 1 add [OF 1]
        by (auto simp: MemoryFs_write_def Let_def defs split: outcome.splits lookup.splits FsNode.splits)
    next
      case False
      then show ?thesis using Undefined assms add [OF assms]
        by (auto simp: MemoryFs_write_def Let_def defs split: lookup.splits FsNode.splits)
    qed
  qed
qed

lemma index_consistent_read:
  assumes "index_consistent fs"
  shows "index_consistent (snd (MemoryFs_read ctx p now fs))"
proof -
  define rp where "rp = resolveWithinJail (jail ctx) (pwd ctx) p"
  show ?thesis
  proof (cases "getNode fs rp")
    case (Node i n)
    show ?thesis
    proof (cases n)
      case (FsDirNode dp ch st)
      then show ?thesis using Node assms by (simp add: MemoryFs_read_def Let_def rp_def [symmetric])
    next
      case (FsFileNode c fp st)
      define fs1 where "fs1 = put_node i (FsFileNode c fp (st\<lparr>atime := Some now\<rparr>)) fs"
      have 1: "index_consistent fs1"
        unfolding fs1_def using index_consistent_put_found [OF assms Node] FsFileNode by simp
      show ?thesis
      proof (cases "getNode fs1 (Path_dirname fp)")
        case par: (Node j parent)
        have "node_path (set_stats ((node_stats parent)\<lparr>atime := Some now\<rparr>) parent) = node_path parent"
          by (cases parent) simp_all
        from index_consistent_put_found [OF 1 par this] show ?thesis
          using Node FsFileNode par
          by (simp add: MemoryFs_read_def Let_def rp_def [symmetric] fs1_def [symmetric])
      qed (use Node FsFileNode 1 in \<open>simp_all add: MemoryFs_read_def Let_def rp_def [symmetric] fs1_def [symmetric]\<close>)
    qed
  qed (use assms in \<open>simp_all add: MemoryFs_read_def Let_def rp_def [symmetric]\<close>)
qed

lemma index_consistent_utimes:
  assumes "index_consistent fs"
  shows "index_consistent (snd (MemoryFs_utimes ctx p st fs))"
proof (cases "getNode fs (resolveWithinJail (jail ctx) (pwd ctx) p)")
  case (Node i n)
  have "node_path (set_stats (merge_stats (node_stats n) st) n) = node_path n"
    by (cases n) simp_all
  from index_consistent_put_found [OF assms Node this] show ?thesis
    using Node by (simp add: MemoryFs_utimes_def Let_def)
qed (use assms in \<open>simp_all add: MemoryFs_utimes_def Let_def\<close>)

lemma index_consistent_rm_delete:
  assumes "index_consistent fs"
  shows "index_consistent (snd (rm_delete node p ts rb fs))"
proof (cases "index fs (node_path node)")
  case None
  then show ?thesis using assms by (simp add: rm_delete_def)
next
  case (Some i)
  define fs1 where "fs1 = fs\<lparr>nodes := (nodes fs)[i := None]\<rparr>"
  have 1: "index_consistent fs1" unfolding fs1_def by (rule index_consistent_delete [OF assms])
  show ?thesis
  proof (cases "getParent fs1 p")
    case (Node j parent)
    show ?thesis
    proof (cases parent)
      case (FsDirNode pp ch pst)
      have "index_consistent (put_node j (FsDirNode pp ch (pst\<lparr>mtime := Some ts\<rparr>)) fs1)"
        using index_consistent_put_found [OF 1 Node [unfolded getParent_def]] FsDirNode by simp
      then show ?thesis using Some Node FsDirNode index_consistent_rebuildIndex
        by (simp add: rm_delete_def Let_def fs1_def [symmetric])
    next
      case (FsFileNode c fp st)
      then show ?thesis using Some Node 1 by (simp add: rm_delete_def Let_def fs1_def [symmetric])
    qed
  qed (use Some 1 in \<open>simp_all add: rm_delete_def Let_def fs1_def [symmetric]\<close>)
qed

lemma index_consistent_rm_children:
  assumes step: "\<And>n opts fs. index_consistent fs \<Longrightarrow> index_consistent (snd (MemoryFs_rm k ctx n opts now fs))"
  shows "index_consistent fs \<Longrightarrow> index_consistent (snd (rm_children k ctx ns ts now fs))"
proof (induction ns arbitrary: fs)
  case Nil
  then show ?case by simp
next
  case (Cons n ns)
  obtain r fs1 where a: "MemoryFs_rm k ctx n
             \<lparr>recursive = Some True, timestamp = Some ts, rebuildIndexOpt = Some False\<rparr> now fs = (r, fs1)"
    by (cases "MemoryFs_rm k ctx n
             \<lparr>recursive = Some True, timestamp = Some ts, rebuildIndexOpt = Some False\<rparr> now fs")
  have 1: "index_consistent fs1" using step [OF Cons.prems, of n
       "\<lparr>recursive = Some True, timestamp = Some ts, rebuildIndexOpt = Some False\<rparr>"] a by simp
  show ?case using a 1 Cons.IH [OF 1] by (cases r) simp_all
qed

lemma index_consistent_rm:
  "index_consistent fs \<Longrightarrow> index_consistent (snd (MemoryFs_rm k ctx p opts now fs))"
proof (induction k arbitrary: p opts fs)
  case 0
  then show ?case by simp
next
  case (Suc k)
  define rp where "rp = resolveWithinJail (jail ctx) (pwd ctx) p"
  define ts where "ts = or_now (timestamp opts) now"
  define rb where "rb = (case rebuildIndexOpt opts of Some r \<Rightarrow> r | None \<Rightarrow> True)"
  note defs = rp_def [symmetric] ts_def [symmetric] rb_def [symmetric]
  show ?case
  proof (cases "getNode fs rp")
    case (Node i n)
    show ?thesis
    proof (cases n)
      case (FsFileNode c fp st)
      then show ?thesis using Node index_consistent_rm_delete [OF Suc.prems]
        by (simp add: Let_def defs)
    next
      case (FsDirNode dp ch st)
      obtain r fs1 where a: "rm_children k ctx ch ts now fs = (r, fs1)"
        by (cases "rm_children k ctx ch ts now fs")
      have 1: "index_consistent fs1"
        using index_consistent_rm_children [of k ctx now fs ch ts, OF Suc.IH Suc.prems] a by simp
      show ?thesis using Node FsDirNode a 1 Suc.prems index_consistent_rm_delete [OF 1]
        by (cases r) (simp_all add: Let_def defs)
    qed
  qed (use Suc.prems in \<open>simp_all add: Let_def defs\<close>)
qed

lemma index_consistent_rmdir:
  "index_consistent fs \<Longrightarrow> index_consistent (snd (MemoryFs_rmdir k ctx p opts now fs))"
  using index_consistent_rm [of fs k ctx p _ now]
  by (auto simp: MemoryFs_rmdir_def Let_def split: lookup.splits FsNode.splits)

section \<open>Creating the missing directories\<close>

text \<open>
  The recursive \<open>mkdir\<close> walks the paths of \<open>getPaths\<close> from the root down and adds a
  directory wherever the index has no entry; each new directory finds its parent in
  the step before. On a tree whose index lists exactly the nodes, and on a path of
  plain parts none of whose ancestors is a file, every step succeeds, and so does the
  \<open>rebuildIndex\<close> that follows.
\<close>

lemma dir_at_iff:
  "dir_at fs q \<longleftrightarrow> (\<exists>j pp ch pst. getNode fs q = Node j (FsDirNode pp ch pst))"
  by (auto simp: dir_at_def split: lookup.splits FsNode.splits)

lemma file_at_iff:
  "file_at fs q \<longleftrightarrow> (\<exists>j c fp st. getNode fs q = Node j (FsFileNode c fp st))"
  by (auto simp: file_at_def split: lookup.splits FsNode.splits)

lemma exactly_indexed_lookup:
  assumes "exactly_indexed fs" "getNode fs q \<noteq> Null" "\<not> file_at fs q"
  shows "dir_at fs q"
proof -
  from assms(2) obtain i where i: "index fs (Path_resolve ''/'' q) = Some i"
    by (auto simp: getNode_Null_iff)
  with assms(1) have l: "i < length (nodes fs)"
    unfolding exactly_indexed_def index_consistent_def by blast
  then have "nodes fs ! i \<in> set (nodes fs)" by simp
  with assms(1) obtain n where n: "nodes fs ! i = Some n"
    unfolding exactly_indexed_def by (cases "nodes fs ! i") auto
  have g: "getNode fs q = Node i n" using i l n by (simp add: getNode_Node_iff)
  show ?thesis using g assms(3) by (cases n) (auto simp: dir_at_def file_at_def)
qed

lemma exactly_indexed_put_node:
  assumes t: "exactly_indexed fs" and k: "k < length (nodes fs)" "nodes fs ! k = Some old"
    and m: "node_path m = node_path old"
  shows "exactly_indexed (put_node k m fs)"
proof -
  have 1: "index_consistent (put_node k m fs)"
    using index_consistent_put_node [OF _ k(2) m] t by (simp add: exactly_indexed_def)
  have 2: "None \<notin> set (nodes (put_node k m fs))"
    using t by (auto simp: exactly_indexed_def put_node_def dest!: set_update_subset_insert [THEN subsetD])
  have 3: "\<forall>i n. i < length (nodes (put_node k m fs)) \<and> nodes (put_node k m fs) ! i = Some n
              \<longrightarrow> index (put_node k m fs) (node_path n) = Some i"
  proof (intro allI impI)
    fix i n
    assume a: "i < length (nodes (put_node k m fs)) \<and> nodes (put_node k m fs) ! i = Some n"
    show "index (put_node k m fs) (node_path n) = Some i"
    proof (cases "i = k")
      case True
      then have "n = m" using a k by (simp add: put_node_def)
      then show ?thesis using t k m True by (simp add: exactly_indexed_def put_node_def)
    next
      case False
      then have "nodes fs ! i = Some n" "i < length (nodes fs)" using a by (simp_all add: put_node_def)
      then show ?thesis using t by (simp add: exactly_indexed_def put_node_def)
    qed
  qed
  show ?thesis unfolding exactly_indexed_def using 1 2 3 by blast
qed

lemma exactly_indexed_append:
  assumes t: "exactly_indexed fs" and null: "index fs (node_path node) = None"
  shows "exactly_indexed (fs\<lparr>index := (index fs)(node_path node \<mapsto> length (nodes fs)),
                            nodes := nodes fs @ [Some node]\<rparr>)"
proof -
  let ?fs1 = "fs\<lparr>index := (index fs)(node_path node \<mapsto> length (nodes fs)),
                 nodes := nodes fs @ [Some node]\<rparr>"
  have 1: "index_consistent ?fs1"
    using index_consistent_append [of fs node] t by (simp add: exactly_indexed_def)
  have 2: "None \<notin> set (nodes ?fs1)" using t by (simp add: exactly_indexed_def)
  have 3: "\<forall>i n. i < length (nodes ?fs1) \<and> nodes ?fs1 ! i = Some n
              \<longrightarrow> index ?fs1 (node_path n) = Some i"
  proof (intro allI impI)
    fix i n
    assume a: "i < length (nodes ?fs1) \<and> nodes ?fs1 ! i = Some n"
    show "index ?fs1 (node_path n) = Some i"
    proof (cases "i = length (nodes fs)")
      case True
      then show ?thesis using a by simp
    next
      case False
      then have b1: "i < length (nodes fs)" using a by simp
      then have b: "i < length (nodes fs)" "nodes fs ! i = Some n" using a by (simp_all add: nth_append)
      then have c: "index fs (node_path n) = Some i" using t by (simp add: exactly_indexed_def)
      then have "node_path n \<noteq> node_path node" using null by auto
      then show ?thesis using c by simp
    qed
  qed
  show ?thesis unfolding exactly_indexed_def using 1 2 3 by blast
qed

lemma addNode_dir:
  assumes t: "exactly_indexed fs" and q: "Path_resolve ''/'' q = q" and null: "getNode fs q = Null"
    and par: "dir_at fs (Path_dirname q)"
  shows "\<exists>fs'. addNode (FsDirNode q [] st) ts False fs = (Ok (), fs') \<and> exactly_indexed fs'
           \<and> dir_at fs' q \<and> (\<forall>x. file_at fs' x \<longrightarrow> file_at fs x)"
proof -
  define fs1 where "fs1 = fs\<lparr>index := (index fs)(q \<mapsto> length (nodes fs)),
                   nodes := nodes fs @ [Some (FsDirNode q [] st)]\<rparr>"
  have iq: "index fs q = None" using null q by (simp add: getNode_Null_iff)
  from par obtain j pp ch pst where p0: "getNode fs (Path_dirname q) = Node j (FsDirNode pp ch pst)"
    by (auto simp: dir_at_iff)
  then have pj: "index fs (Path_resolve ''/'' (Path_dirname q)) = Some j" "j < length (nodes fs)"
    "nodes fs ! j = Some (FsDirNode pp ch pst)"
    by (simp_all add: getNode_Node_iff)
  have ne: "Path_resolve ''/'' (Path_dirname q) \<noteq> q" using pj(1) iq by auto
  have look: "getNode fs1 (Path_dirname q) = Node j (FsDirNode pp ch pst)"
    using pj ne by (simp add: getNode_Node_iff fs1_def nth_append)
  define fs2 where "fs2 = put_node j (FsDirNode pp (sort (ch @ [q])) (pst\<lparr>mtime := Some ts\<rparr>)) fs1"
  have add: "addNode (FsDirNode q [] st) ts False fs = (Ok (), fs2)"
    using look by (simp add: addNode_def Let_def fs1_def [symmetric] fs2_def)
  have t1: "exactly_indexed fs1"
    unfolding fs1_def using exactly_indexed_append [OF t, of "FsDirNode q [] st"] iq by simp
  have j1: "j < length (nodes fs1)" "nodes fs1 ! j = Some (FsDirNode pp ch pst)"
    using pj by (simp_all add: fs1_def nth_append)
  have t2: "exactly_indexed fs2"
    unfolding fs2_def by (rule exactly_indexed_put_node [OF t1 j1]) simp
  have d: "dir_at fs2 q"
    using pj(2) by (simp add: dir_at_def getNode_def q fs2_def put_node_def fs1_def nth_append)
  have fr: "\<forall>x. file_at fs2 x \<longrightarrow> file_at fs x"
  proof (intro allI impI)
    fix x
    assume "file_at fs2 x"
    then obtain i c fp s where g: "getNode fs2 x = Node i (FsFileNode c fp s)"
      by (auto simp: file_at_iff)
    then have i: "index fs1 (Path_resolve ''/'' x) = Some i" "i < length (nodes fs1)"
      "nodes fs2 ! i = Some (FsFileNode c fp s)"
      by (simp_all add: getNode_Node_iff fs2_def put_node_def)
    have ij: "i \<noteq> j" using i(3) j1(1) by (auto simp: fs2_def put_node_def)
    then have n1: "nodes fs1 ! i = Some (FsFileNode c fp s)" using i(3) by (simp add: fs2_def put_node_def)
    have il: "i \<noteq> length (nodes fs)" using n1 by (auto simp: fs1_def)
    then have "i < length (nodes fs)" using i(2) by (simp add: fs1_def)
    moreover have "nodes fs ! i = Some (FsFileNode c fp s)" using n1 il calculation by (simp add: fs1_def nth_append)
    moreover have "index fs (Path_resolve ''/'' x) = Some i" using i(1) il by (auto simp: fs1_def split: if_splits)
    ultimately have "getNode fs x = Node i (FsFileNode c fp s)" by (simp add: getNode_Node_iff)
    then show "file_at fs x" by (auto simp: file_at_iff)
  qed
  show ?thesis using add t2 d fr by blast
qed

lemma hasPathAvailable_loop_iff:
  "hasPathAvailable_loop fs cur parts \<longleftrightarrow> (\<forall>q\<in>set (getPaths_loop cur parts). \<not> file_at fs q)"
proof (induction parts arbitrary: cur)
  case Nil
  show ?case by simp
next
  case (Cons part parts)
  show ?case using Cons [of "Path_join [cur, part]"]
    by (auto simp: Let_def file_at_def split: lookup.splits FsNode.splits)
qed

lemma mkdir_loop_creates:
  assumes "plain_parts parts" "plain_parts acc" "exactly_indexed fs" "dir_at fs (path_of acc)"
    and "\<forall>q\<in>set (getPaths_loop (path_of acc) parts). \<not> file_at fs q"
  shows "\<exists>fs'. mkdir_loop (getPaths_loop (path_of acc) parts) ts fs = (Ok (), fs')
           \<and> exactly_indexed fs' \<and> dir_at fs' (path_of (acc @ parts))"
  using assms
proof (induction parts arbitrary: acc fs)
  case Nil
  then show ?case by simp
next
  case (Cons c parts)
  have pc: "plain_parts [c]" and pp: "plain_parts parts"
    using Cons.prems(1) by (simp_all add: plain_parts_def proper_parts_def)
  have pa: "plain_parts (acc @ [c])" using Cons.prems(2) pc by (simp add: plain_parts_def proper_parts_def)
  note pr = Cons.prems(2) [unfolded plain_parts_def, THEN conjunct1] pc [unfolded plain_parts_def, THEN conjunct1]
    pa [unfolded plain_parts_def, THEN conjunct1]
  define q where "q = path_of (acc @ [c])"
  have j: "Path_join [path_of acc, c] = q" using join_path_of [OF Cons.prems(2) pc] by (simp add: q_def)
  have paths: "getPaths_loop (path_of acc) (c # parts) = q # getPaths_loop q parts"
    by (simp add: j Let_def)
  have qq: "Path_resolve ''/'' q = q" using resolve_path_of [OF pr(3)] by (simp add: q_def)
  have dq: "Path_dirname q = path_of acc" using dirname_path_of [OF pr(1,2)] by (simp add: q_def)
  have nf: "\<not> file_at fs q" "\<forall>x\<in>set (getPaths_loop q parts). \<not> file_at fs x"
    using Cons.prems(5) paths by simp_all
  show ?case
  proof (cases "getNode fs q = Null")
    case True
    from addNode_dir [OF Cons.prems(3) qq True, of "fresh_stats ts" ts] Cons.prems(4) dq
    obtain fs1 where a: "addNode (FsDirNode q [] (fresh_stats ts)) ts False fs = (Ok (), fs1)"
      "exactly_indexed fs1" "dir_at fs1 q" "\<forall>x. file_at fs1 x \<longrightarrow> file_at fs x"
      by auto
    have "\<forall>x\<in>set (getPaths_loop q parts). \<not> file_at fs1 x" using nf(2) a(4) by blast
    from Cons.IH [OF pp pa a(2)] a(3) this
    obtain fs' where "mkdir_loop (getPaths_loop q parts) ts fs1 = (Ok (), fs')"
      "exactly_indexed fs'" "dir_at fs' (path_of ((acc @ [c]) @ parts))"
      by (auto simp: q_def)
    then show ?thesis using True a(1) paths by simp
  next
    case False
    have d: "dir_at fs q" by (rule exactly_indexed_lookup [OF Cons.prems(3) False nf(1)])
    from Cons.IH [OF pp pa Cons.prems(3)] d nf(2)
    obtain fs' where "mkdir_loop (getPaths_loop q parts) ts fs = (Ok (), fs')"
      "exactly_indexed fs'" "dir_at fs' (path_of ((acc @ [c]) @ parts))"
      by (auto simp: q_def)
    then show ?thesis using False paths by simp
  qed
qed

lemma fold_index_defined:
  "m q \<noteq> None \<or> q \<in> node_path ` set xs \<Longrightarrow> fold index_entry (enumerate k xs) m q \<noteq> None"
proof (induction xs arbitrary: k m)
  case Nil
  then show ?case by simp
next
  case (Cons x xs)
  have "index_entry (k, x) m q \<noteq> None \<or> q \<in> node_path ` set xs"
    using Cons.prems by (auto simp: index_entry_def)
  then have "fold index_entry (enumerate (Suc k) xs) (index_entry (k, x) m) q \<noteq> None"
    by (rule Cons.IH [of "index_entry (k, x) m" "Suc k"])
  then show ?case by simp
qed

lemma rebuildIndex_dir:
  assumes t: "exactly_indexed fs" and d: "dir_at fs d"
  shows "\<exists>fs'. rebuildIndex fs = (Ok (), fs') \<and> dir_at fs' d"
proof -
  define d' where "d' = Path_resolve ''/'' d"
  from d obtain j pp ch pst where "getNode fs d = Node j (FsDirNode pp ch pst)"
    by (auto simp: dir_at_iff)
  then have j: "index fs d' = Some j" "j < length (nodes fs)" "nodes fs ! j = Some (FsDirNode pp ch pst)"
    by (simp_all add: getNode_Node_iff d'_def)
  have path: "node_path (FsDirNode pp ch pst) = d'"
    using t j unfolding exactly_indexed_def index_consistent_def by blast
  have nh: "None \<notin> set (nodes fs)" using t by (simp add: exactly_indexed_def)
  have f1: "filter (\<lambda>n. n \<noteq> None) (nodes fs) = nodes fs"
    by (intro filter_True) (use nh in metis)
  have f2: "filter (\<lambda>n. n = None) (nodes fs) = []"
    by (intro filter_False) (use nh in metis)
  define live where "live = sort_key node_path (map the (nodes fs))"
  define fs' where "fs' = fs\<lparr>nodes := map Some live, index := fold index_entry (enumerate 0 live) Map.empty\<rparr>"
  have res: "rebuildIndex fs = (Ok (), fs')"
    unfolding rebuildIndex_def Let_def f1 f2 live_def fs'_def by simp
  have sl: "set live = the ` set (nodes fs)" by (simp add: live_def)
  have "nodes fs ! j \<in> set (nodes fs)" using j(2) by simp
  then have "FsDirNode pp ch pst \<in> set live" using j(3) sl by force
  then have "d' \<in> node_path ` set live" using path by force
  then obtain i where i: "fold index_entry (enumerate 0 live) Map.empty d' = Some i"
    using fold_index_defined [of Map.empty d' live 0] by auto
  from fold_index [OF i] have il: "i < length live" "node_path (live ! i) = d'" by auto
  then have "live ! i \<in> the ` set (nodes fs)" using sl nth_mem [of i live] by simp
  then obtain e where e: "e \<in> set (nodes fs)" "live ! i = the e" by auto
  have "e \<noteq> None" using e(1) nh by metis
  then have es: "e = Some (live ! i)" using e(2) by (cases e) simp_all
  from e(1) obtain k where k: "k < length (nodes fs)" "nodes fs ! k = e" by (auto simp: in_set_conv_nth)
  have "index fs (node_path (live ! i)) = Some k"
    using t k es unfolding exactly_indexed_def by blast
  then have "k = j" using il(2) j(1) by simp
  then have "live ! i = FsDirNode pp ch pst" using k es j(3) by simp
  then have "getNode fs' d = Node i (FsDirNode pp ch pst)"
    using i il(1) by (simp add: getNode_Node_iff fs'_def d'_def)
  then show ?thesis using res by (auto simp: dir_at_iff)
qed

lemma index_consistent_stored_under: "index_consistent fs \<Longrightarrow> stored_under fs q"
  unfolding stored_under_def index_consistent_def
  by (auto simp: getNode_def split: lookup.splits option.splits if_splits)

lemma mkdir_creates:
  assumes t: "exactly_indexed fs" and root: "dir_at fs ''/''"
    and ds: "plain_parts ds"
    and null: "getNode fs (path_of ds) = Null"
    and avail: "hasPathAvailable fs (path_of ds)"
    and rp: "resolveWithinJail (jail ctx) (pwd ctx) (path_of ds) = path_of ds"
    and rec: "recursive opts \<noteq> Some False"
  shows "\<exists>fs'. MemoryFs_mkdir ctx (path_of ds) opts now fs = (Ok (), fs') \<and> dir_at fs' (path_of ds)"
proof -
  define ts where "ts = or_now (timestamp opts) now"
  have r0: "path_of [] = ''/''" by (simp add: path_of_def)
  have p0: "plain_parts []" by (simp add: plain_parts_def proper_parts_def)
  have dp: "proper_parts ds" using ds by (simp add: plain_parts_def)
  have ne: "ds \<noteq> []" using null root r0 by (auto simp: dir_at_def)
  have s: "split_slash (path_of ds) = [] # ds" using split_path_of [OF dp] ne by simp
  have j0: "Path_join [''/'', []] = ''/''" using join_path_of_empty [OF p0] by (simp add: r0)
  have gp: "getPaths (path_of ds) = ''/'' # getPaths_loop (path_of []) ds"
    by (simp add: getPaths_def resolve_path_of [OF dp] s j0 Let_def r0)
  have "hasPathAvailable_loop fs ''/'' ([] # ds)" using avail s by (simp add: hasPathAvailable_def)
  then have nf: "\<forall>q\<in>set (getPaths_loop (path_of []) ds). \<not> file_at fs q"
    by (simp add: hasPathAvailable_loop_iff j0 Let_def r0)
  have rn: "getNode fs ''/'' \<noteq> Null" using root by (auto simp: dir_at_def)
  from mkdir_loop_creates [OF ds p0 t _ nf, of ts] root r0
  obtain fs1 where l: "mkdir_loop (getPaths_loop (path_of []) ds) ts fs = (Ok (), fs1)"
    "exactly_indexed fs1" "dir_at fs1 (path_of ds)"
    by auto
  from rebuildIndex_dir [OF l(2,3)]
  obtain fs2 where rb: "rebuildIndex fs1 = (Ok (), fs2)" "dir_at fs2 (path_of ds)" by blast
  have loop: "mkdir_loop (getPaths (path_of ds)) ts fs = (Ok (), fs1)"
    using rn l(1) by (simp add: gp)
  have rc: "(case recursive opts of Some r \<Rightarrow> r | None \<Rightarrow> True) = True"
    using rec by (cases "recursive opts") auto
  have "MemoryFs_mkdir ctx (path_of ds) opts now fs = (Ok (), fs2)"
    using null avail loop rb(1) by (simp add: MemoryFs_mkdir_def Let_def rp ts_def [symmetric] rc)
  then show ?thesis using rb(2) by blast
qed

lemma write_creates_parents:
  assumes abs: "isAbsolute (jail ctx)"
    and rp: "rp = resolveWithinJail (jail ctx) (pwd ctx) p"
    and t: "exactly_indexed fs" and root: "dir_at fs ''/''"
    and absent: "getNode fs rp = Null" and nopar: "getParent fs rp = Null"
    and rec: "recursive opts \<noteq> Some False"
    and avail: "hasPathAvailable fs (Path_dirname rp)"
    and nodot: "''.'' \<notin> set (split_slash rp)"
    and injail: "prefix (jail ctx) (Path_dirname rp)"
  shows "fst (MemoryFs_write ctx p c opts now fs) = Ok ()"
proof -
  define ts where "ts = or_now (timestamp opts) now"
  have n: "cleanPath rp = rp" "isAbsolute rp" using resolveWithinJail_normal [OF abs] rp by simp_all
  have rr: "Path_resolve ''/'' rp = rp" using resolve_root_resolveWithinJail [OF abs] rp by simp
  from normal_path_plain [OF n(2,1) nodot] obtain cs where cs: "plain_parts cs" "rp = path_of cs" by blast
  have r0: "path_of [] = ''/''" by (simp add: path_of_def)
  have "cs \<noteq> []" using absent root cs(2) r0 by (auto simp: dir_at_def)
  then obtain ds x where dx: "cs = ds @ [x]" by (cases cs rule: rev_cases) auto
  have pd: "plain_parts ds" and px: "proper_parts [x]" and dp: "proper_parts ds"
    using cs(1) dx by (simp_all add: plain_parts_def proper_parts_def)
  have dn: "Path_dirname rp = path_of ds" using dirname_path_of [OF dp px] cs(2) dx by simp
  have dnull: "getNode fs (path_of ds) = Null" using nopar by (simp add: getParent_def rr dn)
  have fixed: "resolveWithinJail (jail ctx) (pwd ctx) (path_of ds) = path_of ds"
    using resolveWithinJail_fixed [of "path_of ds" "jail ctx" "pwd ctx"] cleanPath_path_of [OF dp] injail
    by (simp add: dn isAbsolute_def path_of_def)
  define mo where "mo = \<lparr>recursive = Some True, timestamp = Some ts, rebuildIndexOpt = None\<rparr>"
  have "recursive mo \<noteq> Some False" by (simp add: mo_def)
  from mkdir_creates [OF t root pd dnull _ fixed this, of now] avail dn
  obtain fs2 where m: "MemoryFs_mkdir ctx (path_of ds) mo now fs = (Ok (), fs2)" "dir_at fs2 (path_of ds)"
    by auto
  from m(2) obtain j pp ch pst where par: "getNode fs2 (path_of ds) = Node j (FsDirNode pp ch pst)"
    by (auto simp: dir_at_iff)
  then have pj: "index fs2 (path_of ds) = Some j" "j < length (nodes fs2)"
    "nodes fs2 ! j = Some (FsDirNode pp ch pst)"
    by (simp_all add: getNode_Node_iff resolve_path_of [OF dp])
  have gp2: "getParent fs2 rp = Node j (FsDirNode pp ch pst)" using par by (simp add: getParent_def rr dn)
  have ne: "path_of ds \<noteq> rp" using path_of_length [OF px, of ds] cs(2) dx by auto
  define fs3 where "fs3 = fs2\<lparr>index := (index fs2)(rp \<mapsto> length (nodes fs2)),
                   nodes := nodes fs2 @ [Some (FsFileNode c rp (fresh_stats ts))]\<rparr>"
  have look: "getNode fs3 (Path_dirname rp) = Node j (FsDirNode pp ch pst)"
    using pj ne by (simp add: getNode_Node_iff fs3_def nth_append dn resolve_path_of [OF dp])
  have add: "fst (addNode (FsFileNode c rp (fresh_stats ts)) ts False fs2) = Ok ()"
    using look by (simp add: addNode_def Let_def fs3_def [symmetric])
  have rc: "(case recursive opts of Some r \<Rightarrow> r | None \<Rightarrow> True) = True"
    using rec by (cases "recursive opts") auto
  have "MemoryFs_write ctx p c opts now fs = addNode (FsFileNode c rp (fresh_stats ts)) ts False fs2"
    using absent nopar m(1) gp2
    by (simp add: MemoryFs_write_def Let_def rp [symmetric] ts_def [symmetric] rc dn mo_def)
  then show ?thesis using add by simp
qed

lemma overwrite_file:
  assumes rp: "rp = resolveWithinJail (jail ctx) (pwd ctx) p"
    and n: "getNode fs rp = Node i (FsFileNode old fp st)"
    and par: "getParent fs rp = Node j (FsDirNode pp ch pst)"
    and ts: "ts = or_now (timestamp opts) now"
  shows "MemoryFs_write ctx p c opts now fs =
     (Ok (), put_node j (FsDirNode pp ch (pst\<lparr>mtime := Some ts\<rparr>))
               (put_node i (FsFileNode c fp (st\<lparr>mtime := Some ts\<rparr>)) fs))"
proof -
  define fs1 where "fs1 = put_node i (FsFileNode c fp (st\<lparr>mtime := Some ts\<rparr>)) fs"
  from n have i: "nodes fs ! i = Some (FsFileNode old fp st)" by (simp add: getNode_Node_iff)
  from par have j: "index fs (Path_resolve ''/'' (Path_dirname (Path_resolve ''/'' rp))) = Some j"
    "j < length (nodes fs)" "nodes fs ! j = Some (FsDirNode pp ch pst)"
    by (simp_all add: getParent_def getNode_Node_iff)
  have "j \<noteq> i" using i j(3) by auto
  then have "getParent fs1 rp = Node j (FsDirNode pp ch pst)"
    using j by (simp add: getParent_def getNode_Node_iff fs1_def put_node_def)
  then show ?thesis
    using n by (simp add: MemoryFs_write_def Let_def rp [symmetric] ts [symmetric] fs1_def [symmetric])
qed

lemma exactly_indexed_empty: "exactly_indexed (MemoryFs_empty root t) \<and> dir_at (MemoryFs_empty root t) ''/''"
proof -
  have "Path_resolve ''/'' ''/'' = ''/''" by code_simp
  then have "dir_at (MemoryFs_empty root t) ''/''"
    by (simp add: dir_at_def getNode_def MemoryFs_empty_def)
  moreover have "exactly_indexed (MemoryFs_empty root t)"
    unfolding exactly_indexed_def using index_consistent_empty [of root t]
    by (simp add: MemoryFs_empty_def)
  ultimately show ?thesis by simp
qed

section \<open>The tree as long as nothing is removed\<close>

text \<open>
  \<open>MemoryFs.empty\<close> and every call of \<open>read\<close>, \<open>write\<close>, \<open>mkdir\<close> and \<open>utimes\<close> leave a
  tree whose index lists exactly the nodes and whose root is a directory, whether the
  call returned or threw. (\<open>rm\<close> leaves a hole behind, and \<open>parse\<close> takes \<open>nodes\<close> and
  \<open>index\<close> as they are given.)
\<close>

lemma path_of_inj:
  assumes "proper_parts xs" "proper_parts ys" "path_of xs = path_of ys"
  shows "xs = ys"
proof -
  have "(if xs = [] then [[]] else xs) = (if ys = [] then [[]] else ys)"
    using split_path_of [OF assms(1)] split_path_of [OF assms(2)] assms(3) by simp
  then show ?thesis using assms(1,2) by (auto simp: proper_parts_def split: if_splits)
qed

lemma join_path_of_dot:
  assumes "plain_parts cs"
  shows "Path_join [path_of cs, ''.''] = path_of cs"
proof -
  have f: "filter (\<lambda>part. \<not> (part = [] \<or> part = ''.'')) (split_slash (path_of cs)) = cs"
    using assms(1) by (auto simp: split_path_of plain_parts_def proper_parts_def list_all_iff filter_id_conv)
  then show ?thesis by (simp add: Path_join_def path_of_def)
qed

lemma getPaths_loop_form:
  "plain_parts acc \<Longrightarrow> proper_parts parts
   \<Longrightarrow> \<forall>q\<in>set (getPaths_loop (path_of acc) parts).
         \<exists>cs. plain_parts cs \<and> q = path_of cs \<and> length cs \<le> length acc + length parts"
proof (induction parts arbitrary: acc)
  case Nil
  show ?case by simp
next
  case (Cons c parts)
  have pc: "proper_parts [c]" and pp: "proper_parts parts"
    using Cons.prems(2) by (simp_all add: proper_parts_def)
  show ?case
  proof (cases "c = ''.''")
    case True
    have j: "Path_join [path_of acc, c] = path_of acc" using join_path_of_dot [OF Cons.prems(1)] True by simp
    have ih: "\<forall>q\<in>set (getPaths_loop (path_of acc) parts).
         \<exists>cs. plain_parts cs \<and> q = path_of cs \<and> length cs \<le> length acc + length parts"
      by (rule Cons.IH [OF Cons.prems(1) pp])
    show ?thesis
    proof
      fix q
      assume "q \<in> set (getPaths_loop (path_of acc) (c # parts))"
      then have "q = path_of acc \<or> q \<in> set (getPaths_loop (path_of acc) parts)"
        using j by (auto simp: Let_def)
      then show "\<exists>cs. plain_parts cs \<and> q = path_of cs \<and> length cs \<le> length acc + length (c # parts)"
      proof
        assume "q = path_of acc"
        then show ?thesis using Cons.prems(1) by (intro exI [of _ acc]) simp
      next
        assume "q \<in> set (getPaths_loop (path_of acc) parts)"
        then obtain cs where "plain_parts cs" "q = path_of cs" "length cs \<le> length acc + length parts"
          using ih by blast
        then show ?thesis by (intro exI [of _ cs]) simp
      qed
    qed
  next
    case False
    then have plc: "plain_parts [c]" using pc by (simp add: plain_parts_def)
    have pa: "plain_parts (acc @ [c])"
      using Cons.prems(1) plc by (simp add: plain_parts_def proper_parts_def)
    have j: "Path_join [path_of acc, c] = path_of (acc @ [c])" by (rule join_path_of [OF Cons.prems(1) plc])
    have "\<forall>q\<in>set (getPaths_loop (path_of (acc @ [c])) parts).
         \<exists>cs. plain_parts cs \<and> q = path_of cs \<and> length cs \<le> length (acc @ [c]) + length parts"
      by (rule Cons.IH [OF pa pp])
    then show ?thesis using j pa by (auto simp: Let_def)
  qed
qed

lemma getPaths_form:
  assumes "proper_parts ds"
  shows "\<forall>q\<in>set (getPaths (path_of ds)). \<exists>cs. plain_parts cs \<and> q = path_of cs \<and> length cs \<le> length ds"
proof -
  have p0: "plain_parts []" by (simp add: plain_parts_def proper_parts_def)
  have r0: "path_of [] = ''/''" by (simp add: path_of_def)
  have j0: "Path_join [''/'', []] = ''/''" using join_path_of_empty [OF p0] by (simp add: r0)
  have root: "\<exists>cs. plain_parts cs \<and> ''/'' = path_of cs \<and> length cs \<le> length ds"
    using p0 r0 by (intro exI [of _ "[]"]) simp
  show ?thesis
  proof (cases "ds = []")
    case True
    have s: "split_slash (path_of ds) = [[], []]" using split_path_of [OF assms] True by simp
    have "getPaths (path_of ds) = [''/'', ''/'']"
      unfolding getPaths_def resolve_path_of [OF assms] s by (simp add: j0 Let_def)
    then show ?thesis using root by simp
  next
    case False
    have s: "split_slash (path_of ds) = [] # ds" using split_path_of [OF assms] False by simp
    have "getPaths (path_of ds) = ''/'' # getPaths_loop (path_of []) ds"
      unfolding getPaths_def resolve_path_of [OF assms] s by (simp add: j0 Let_def r0)
    then show ?thesis using root getPaths_loop_form [OF p0 assms] by simp
  qed
qed

lemma getPaths_normal:
  assumes abs: "isAbsolute d" and clean: "cleanPath d = d"
  shows "\<forall>q\<in>set (getPaths d). Path_resolve ''/'' q = q"
proof -
  from normal_path_parts [OF abs clean] obtain ds where ds: "proper_parts ds" "d = path_of ds" by blast
  show ?thesis
  proof
    fix q assume "q \<in> set (getPaths d)"
    then obtain cs where "plain_parts cs" "q = path_of cs" using getPaths_form [OF ds(1)] ds(2) by blast
    then show "Path_resolve ''/'' q = q" using resolve_path_of [of cs] by (simp add: plain_parts_def)
  qed
qed

lemma not_in_getPaths_dirname:
  assumes "proper_parts ds" "proper_parts [x]"
  shows "path_of (ds @ [x]) \<notin> set (getPaths (path_of ds))"
proof
  assume "path_of (ds @ [x]) \<in> set (getPaths (path_of ds))"
  then obtain cs where cs: "plain_parts cs" "path_of (ds @ [x]) = path_of cs" "length cs \<le> length ds"
    using getPaths_form [OF assms(1)] by blast
  have "proper_parts (ds @ [x])" using assms by (simp add: proper_parts_def)
  then have "ds @ [x] = cs" using path_of_inj [of "ds @ [x]" cs] cs(1,2) by (simp add: plain_parts_def)
  then show False using cs(3) by auto
qed

lemma dir_at_put_node:
  assumes "dir_at fs q" "nodes fs ! k = Some old"
    and "(case old of FsDirNode a b c \<Rightarrow> (case m of FsDirNode a' b' c' \<Rightarrow> True | _ \<Rightarrow> False) | _ \<Rightarrow> True)"
  shows "dir_at (put_node k m fs) q"
proof -
  from assms(1) obtain j pp ch pst where g: "getNode fs q = Node j (FsDirNode pp ch pst)"
    by (auto simp: dir_at_iff)
  then have j: "index fs (Path_resolve ''/'' q) = Some j" "j < length (nodes fs)"
    "nodes fs ! j = Some (FsDirNode pp ch pst)"
    by (simp_all add: getNode_Node_iff)
  show ?thesis
  proof (cases "j = k")
    case True
    then obtain a b c where "m = FsDirNode a b c" using assms(2,3) j(3) by (cases m) auto
    then show ?thesis using j True by (simp add: dir_at_def getNode_def put_node_def)
  next
    case False
    then show ?thesis using j by (simp add: dir_at_def getNode_def put_node_def)
  qed
qed

lemma dir_at_append:
  assumes "dir_at fs q" "index fs (node_path node) = None"
  shows "dir_at (fs\<lparr>index := (index fs)(node_path node \<mapsto> length (nodes fs)),
                     nodes := nodes fs @ [Some node]\<rparr>) q"
proof -
  from assms(1) obtain j pp ch pst where g: "getNode fs q = Node j (FsDirNode pp ch pst)"
    by (auto simp: dir_at_iff)
  then have j: "index fs (Path_resolve ''/'' q) = Some j" "j < length (nodes fs)"
    "nodes fs ! j = Some (FsDirNode pp ch pst)"
    by (simp_all add: getNode_Node_iff)
  have "Path_resolve ''/'' q \<noteq> node_path node" using j(1) assms(2) by auto
  then show ?thesis using j by (simp add: dir_at_def getNode_def nth_append)
qed

lemma fold_index_other:
  "q \<notin> node_path ` set xs \<Longrightarrow> fold index_entry (enumerate k xs) m q = m q"
  by (induction xs arbitrary: k m) (auto simp: index_entry_def)

lemma fold_index_distinct:
  "distinct (map node_path xs) \<Longrightarrow> i < length xs
   \<Longrightarrow> fold index_entry (enumerate k xs) m (node_path (xs ! i)) = Some (k + i)"
proof (induction xs arbitrary: k m i)
  case Nil
  then show ?case by simp
next
  case (Cons x xs)
  show ?case
  proof (cases i)
    case 0
    have "node_path x \<notin> node_path ` set xs" using Cons.prems(1) by auto
    then have "fold index_entry (enumerate (Suc k) xs) (index_entry (k, x) m) (node_path x)
                 = index_entry (k, x) m (node_path x)"
      by (rule fold_index_other)
    moreover have "index_entry (k, x) m (node_path x) = Some k" by (simp add: index_entry_def)
    ultimately show ?thesis using 0 by simp
  next
    case (Suc i')
    then have "fold index_entry (enumerate (Suc k) xs) (index_entry (k, x) m) (node_path (xs ! i'))
                 = Some (Suc k + i')"
      using Cons.prems by (intro Cons.IH) auto
    then show ?thesis using Suc by simp
  qed
qed

lemma exactly_indexed_rebuildIndex:
  assumes t: "exactly_indexed fs"
  shows "exactly_indexed (snd (rebuildIndex fs))
         \<and> (\<forall>q. index (snd (rebuildIndex fs)) q \<noteq> None \<longrightarrow> index fs q \<noteq> None)"
proof -
  have nh: "None \<notin> set (nodes fs)" using t by (simp add: exactly_indexed_def)
  have f1: "filter (\<lambda>n. n \<noteq> None) (nodes fs) = nodes fs"
    by (intro filter_True) (use nh in metis)
  have f2: "filter (\<lambda>n. n = None) (nodes fs) = []"
    by (intro filter_False) (use nh in metis)
  define live where "live = sort_key node_path (map the (nodes fs))"
  define fs' where "fs' = fs\<lparr>nodes := map Some live, index := fold index_entry (enumerate 0 live) Map.empty\<rparr>"
  have res: "snd (rebuildIndex fs) = fs'"
    unfolding rebuildIndex_def Let_def f1 f2 live_def fs'_def by simp
  have some: "\<And>i. i < length (nodes fs) \<Longrightarrow> nodes fs ! i = Some (the (nodes fs ! i))"
  proof -
    fix i assume "i < length (nodes fs)"
    then have "nodes fs ! i \<in> set (nodes fs)" by simp
    then have "nodes fs ! i \<noteq> None" using nh by metis
    then show "nodes fs ! i = Some (the (nodes fs ! i))" by simp
  qed
  have d0: "distinct (map node_path (map the (nodes fs)))"
    unfolding distinct_conv_nth
  proof (intro allI impI)
    fix i j
    assume a: "i < length (map node_path (map the (nodes fs)))"
      "j < length (map node_path (map the (nodes fs)))" "i \<noteq> j"
    then have i: "index fs (node_path (the (nodes fs ! i))) = Some i"
      and j: "index fs (node_path (the (nodes fs ! j))) = Some j"
      using t some unfolding exactly_indexed_def by auto
    show "map node_path (map the (nodes fs)) ! i \<noteq> map node_path (map the (nodes fs)) ! j"
      using a i j by auto
  qed
  define xs where "xs = map the (nodes fs)"
  have "distinct xs \<and> inj_on node_path (set xs)"
    using d0 unfolding xs_def [symmetric] by (simp only: distinct_map)
  then have "distinct (sort_key node_path xs) \<and> inj_on node_path (set (sort_key node_path xs))"
    by simp
  then have d1: "distinct (map node_path live)"
    unfolding live_def xs_def [symmetric] by (simp only: distinct_map)
  have sl: "set live = the ` set (nodes fs)" by (simp add: live_def)
  have 1: "index_consistent fs'" using index_consistent_rebuildIndex [of fs] res by simp
  have 2: "None \<notin> set (nodes fs')" by (auto simp: fs'_def)
  have 3: "\<forall>i n. i < length (nodes fs') \<and> nodes fs' ! i = Some n \<longrightarrow> index fs' (node_path n) = Some i"
  proof (intro allI impI)
    fix i n
    assume "i < length (nodes fs') \<and> nodes fs' ! i = Some n"
    then have "i < length live" "n = live ! i" by (auto simp: fs'_def)
    then show "index fs' (node_path n) = Some i"
      using fold_index_distinct [OF d1, of i 0 Map.empty] by (simp add: fs'_def)
  qed
  have 4: "\<forall>q. index fs' q \<noteq> None \<longrightarrow> index fs q \<noteq> None"
  proof (intro allI impI)
    fix q
    assume "index fs' q \<noteq> None"
    then obtain i where "fold index_entry (enumerate 0 live) Map.empty q = Some i"
      by (auto simp: fs'_def)
    from fold_index [OF this] have il: "i < length live" "node_path (live ! i) = q" by auto
    then have "live ! i \<in> the ` set (nodes fs)" using sl nth_mem [of i live] by simp
    then obtain k where k: "k < length (nodes fs)" "live ! i = the (nodes fs ! k)"
      by (auto simp: in_set_conv_nth)
    then have "index fs (node_path (live ! i)) = Some k"
      using t some [OF k(1)] unfolding exactly_indexed_def by auto
    then show "index fs q \<noteq> None" using il(2) by simp
  qed
  show ?thesis unfolding res exactly_indexed_def using 1 2 3 4 by blast
qed

lemma dirname_absolute:
  assumes abs: "isAbsolute x" and clean: "cleanPath x = x"
  shows "isAbsolute (Path_dirname x)"
proof -
  from normal_path_parts [OF abs clean] obtain cs where cs: "proper_parts cs" "x = path_of cs" by blast
  show ?thesis
  proof (cases cs rule: rev_cases)
    case Nil
    then show ?thesis using cs(2) by (simp add: path_of_def dirname_root isAbsolute_def)
  next
    case (snoc ds c)
    then have "proper_parts ds" "proper_parts [c]" using cs(1) by (simp_all add: proper_parts_def)
    then have "Path_dirname x = path_of ds" using dirname_path_of [of ds c] cs(2) snoc by simp
    then show ?thesis by (simp add: path_of_def isAbsolute_def)
  qed
qed

lemma root_jail_parent:
  assumes "jail ctx = ''/''"
  shows "prefix (jail ctx) (Path_dirname (resolveWithinJail (jail ctx) (pwd ctx) p))"
proof -
  have abs: "isAbsolute (jail ctx)" using assms by (simp add: isAbsolute_def)
  have "isAbsolute (Path_dirname (resolveWithinJail (jail ctx) (pwd ctx) p))"
    using resolveWithinJail_normal [OF abs, of "pwd ctx" p] by (intro dirname_absolute) simp_all
  then show ?thesis using assms by (simp add: isAbsolute_def)
qed

lemma exactly_indexed_absent:
  assumes "exactly_indexed fs" "\<forall>i n. getNode fs q \<noteq> Node i n"
  shows "index fs (Path_resolve ''/'' q) = None"
proof (rule ccontr)
  assume "index fs (Path_resolve ''/'' q) \<noteq> None"
  then obtain i where i: "index fs (Path_resolve ''/'' q) = Some i" by auto
  with assms(1) have l: "i < length (nodes fs)"
    unfolding exactly_indexed_def index_consistent_def by blast
  then have "nodes fs ! i \<in> set (nodes fs)" by simp
  with assms(1) obtain n where "nodes fs ! i = Some n"
    unfolding exactly_indexed_def by (cases "nodes fs ! i") auto
  then have "getNode fs q = Node i n" using i l by (simp add: getNode_Node_iff)
  then show False using assms(2) by simp
qed

lemma addNode_keeps:
  assumes t: "exactly_indexed fs" and fresh: "index fs (node_path node) = None" and d: "dir_at fs r"
  shows "exactly_indexed (snd (addNode node ts False fs)) \<and> dir_at (snd (addNode node ts False fs)) r
         \<and> (\<forall>q. index (snd (addNode node ts False fs)) q \<noteq> None
                \<longrightarrow> index fs q \<noteq> None \<or> q = node_path node)"
proof -
  define fs1 where "fs1 = fs\<lparr>index := (index fs)(node_path node \<mapsto> length (nodes fs)),
                        nodes := nodes fs @ [Some node]\<rparr>"
  have t1: "exactly_indexed fs1" unfolding fs1_def by (rule exactly_indexed_append [OF t fresh])
  have d1: "dir_at fs1 r" unfolding fs1_def by (rule dir_at_append [OF d fresh])
  have k1: "\<forall>q. index fs1 q \<noteq> None \<longrightarrow> index fs q \<noteq> None \<or> q = node_path node"
    by (simp add: fs1_def)
  show ?thesis
  proof (cases "getNode fs1 (Path_dirname (node_path node))")
    case (Node j parent)
    then have j: "j < length (nodes fs1)" "nodes fs1 ! j = Some parent" by (simp_all add: getNode_Node_iff)
    show ?thesis
    proof (cases parent)
      case (FsDirNode pp ch pst)
      define m where "m = FsDirNode pp (sort (ch @ [node_path node])) (pst\<lparr>mtime := Some ts\<rparr>)"
      have res: "snd (addNode node ts False fs) = put_node j m fs1"
        using Node FsDirNode by (simp add: addNode_def Let_def fs1_def [symmetric] m_def)
      have "exactly_indexed (put_node j m fs1)"
        by (rule exactly_indexed_put_node [OF t1 j]) (simp add: m_def FsDirNode)
      moreover have "dir_at (put_node j m fs1) r"
        by (rule dir_at_put_node [OF d1 j(2)]) (simp add: m_def FsDirNode)
      moreover have "index (put_node j m fs1) = index fs1" by (simp add: put_node_def)
      ultimately show ?thesis using k1 unfolding res by simp
    next
      case (FsFileNode c fp st)
      then have "snd (addNode node ts False fs) = fs1"
        using Node by (simp add: addNode_def Let_def fs1_def [symmetric])
      then show ?thesis using t1 d1 k1 by simp
    qed
  next
    case Null
    then have "snd (addNode node ts False fs) = fs1"
      by (simp add: addNode_def Let_def fs1_def [symmetric])
    then show ?thesis using t1 d1 k1 by simp
  next
    case Undefined
    then have "snd (addNode node ts False fs) = fs1"
      by (simp add: addNode_def Let_def fs1_def [symmetric])
    then show ?thesis using t1 d1 k1 by simp
  qed
qed

lemma mkdir_loop_keeps:
  assumes "exactly_indexed fs" "dir_at fs r" "\<forall>p\<in>set ps. Path_resolve ''/'' p = p"
  shows "exactly_indexed (snd (mkdir_loop ps ts fs)) \<and> dir_at (snd (mkdir_loop ps ts fs)) r
         \<and> (\<forall>q. index (snd (mkdir_loop ps ts fs)) q \<noteq> None \<longrightarrow> index fs q \<noteq> None \<or> q \<in> set ps)"
  using assms
proof (induction ps arbitrary: fs)
  case Nil
  then show ?case by simp
next
  case (Cons p ps)
  have pp: "Path_resolve ''/'' p = p" and rest: "\<forall>p\<in>set ps. Path_resolve ''/'' p = p"
    using Cons.prems(3) by simp_all
  show ?case
  proof (cases "getNode fs p = Null")
    case False
    then have eq: "mkdir_loop (p # ps) ts fs = mkdir_loop ps ts fs" by simp
    from Cons.IH [OF Cons.prems(1,2) rest]
    have ih: "exactly_indexed (snd (mkdir_loop ps ts fs))" "dir_at (snd (mkdir_loop ps ts fs)) r"
      "\<forall>q. index (snd (mkdir_loop ps ts fs)) q \<noteq> None \<longrightarrow> index fs q \<noteq> None \<or> q \<in> set ps"
      by blast+
    have "\<forall>q. index (snd (mkdir_loop ps ts fs)) q \<noteq> None \<longrightarrow> index fs q \<noteq> None \<or> q \<in> set (p # ps)"
      using ih(3) by auto
    then show ?thesis unfolding eq using ih(1,2) by blast
  next
    case True
    then have fresh: "index fs (node_path (FsDirNode p [] (fresh_stats ts))) = None"
      by (simp add: getNode_Null_iff pp)
    obtain r' fs1 where a: "addNode (FsDirNode p [] (fresh_stats ts)) ts False fs = (r', fs1)"
      by (cases "addNode (FsDirNode p [] (fresh_stats ts)) ts False fs")
    from addNode_keeps [OF Cons.prems(1) fresh Cons.prems(2), of ts] a
    have k: "exactly_indexed fs1" "dir_at fs1 r"
      "\<forall>q. index fs1 q \<noteq> None \<longrightarrow> index fs q \<noteq> None \<or> q = p"
      by simp_all
    show ?thesis
    proof (cases r')
      case (Ok u)
      then have eq: "mkdir_loop (p # ps) ts fs = mkdir_loop ps ts fs1" using True a by simp
      from Cons.IH [OF k(1,2) rest]
      have ih: "exactly_indexed (snd (mkdir_loop ps ts fs1))" "dir_at (snd (mkdir_loop ps ts fs1)) r"
        "\<forall>q. index (snd (mkdir_loop ps ts fs1)) q \<noteq> None \<longrightarrow> index fs1 q \<noteq> None \<or> q \<in> set ps"
        by blast+
      have "\<forall>q. index (snd (mkdir_loop ps ts fs1)) q \<noteq> None \<longrightarrow> index fs q \<noteq> None \<or> q \<in> set (p # ps)"
      proof (intro allI impI)
        fix q
        assume "index (snd (mkdir_loop ps ts fs1)) q \<noteq> None"
        then have "index fs1 q \<noteq> None \<or> q \<in> set ps" using ih(3) by blast
        then show "index fs q \<noteq> None \<or> q \<in> set (p # ps)" using k(3) by auto
      qed
      then show ?thesis unfolding eq using ih(1,2) by blast
    next
      case (Err e)
      then have "snd (mkdir_loop (p # ps) ts fs) = fs1" using True a by simp
      moreover have "\<forall>q. index fs1 q \<noteq> None \<longrightarrow> index fs q \<noteq> None \<or> q \<in> set (p # ps)"
        using k(3) by auto
      ultimately show ?thesis using k(1,2) by simp
    next
      case Thrown
      then have "snd (mkdir_loop (p # ps) ts fs) = fs1" using True a by simp
      moreover have "\<forall>q. index fs1 q \<noteq> None \<longrightarrow> index fs q \<noteq> None \<or> q \<in> set (p # ps)"
        using k(3) by auto
      ultimately show ?thesis using k(1,2) by simp
    next
      case Diverged
      then have "snd (mkdir_loop (p # ps) ts fs) = fs1" using True a by simp
      moreover have "\<forall>q. index fs1 q \<noteq> None \<longrightarrow> index fs q \<noteq> None \<or> q \<in> set (p # ps)"
        using k(3) by auto
      ultimately show ?thesis using k(1,2) by simp
    qed
  qed
qed

lemma mkdir_keeps:
  assumes abs: "isAbsolute (jail ctx)" and t: "exactly_indexed fs" and d: "dir_at fs r"
    and rp: "rp = resolveWithinJail (jail ctx) (pwd ctx) p"
  shows "exactly_indexed (snd (MemoryFs_mkdir ctx p opts now fs))
         \<and> dir_at (snd (MemoryFs_mkdir ctx p opts now fs)) r
         \<and> (\<forall>q. index (snd (MemoryFs_mkdir ctx p opts now fs)) q \<noteq> None
                \<longrightarrow> index fs q \<noteq> None \<or> q \<in> set (getPaths rp) \<or> q = rp)"
proof -
  define ts where "ts = or_now (timestamp opts) now"
  define rec where "rec = (case recursive opts of Some r \<Rightarrow> r | None \<Rightarrow> True)"
  note defs = rp [symmetric] ts_def [symmetric] rec_def [symmetric]
  have n: "cleanPath rp = rp" "isAbsolute rp" using resolveWithinJail_normal [OF abs] rp by simp_all
  have rr: "Path_resolve ''/'' rp = rp" using resolve_root_resolveWithinJail [OF abs] rp by simp
  show ?thesis
  proof (cases "\<exists>i n. getNode fs rp = Node i n")
    case True
    then obtain i n where "getNode fs rp = Node i n" by blast
    then have "snd (MemoryFs_mkdir ctx p opts now fs) = fs"
      by (cases n) (simp_all add: MemoryFs_mkdir_def Let_def defs)
    then show ?thesis using t d by simp
  next
    case False
    then have fresh: "index fs rp = None" using exactly_indexed_absent [OF t, of rp] rr by simp
    from False have absent: "getNode fs rp = Null \<or> getNode fs rp = Undefined"
      by (cases "getNode fs rp") auto
    show ?thesis
    proof (cases rec)
      case nonrec: False
      have a: "node_path (FsDirNode rp [] (fresh_stats ts)) = rp" by simp
      note k = addNode_keeps [OF t _ d, of "FsDirNode rp [] (fresh_stats ts)" ts]
      have ka: "exactly_indexed (snd (addNode (FsDirNode rp [] (fresh_stats ts)) ts False fs))"
        "dir_at (snd (addNode (FsDirNode rp [] (fresh_stats ts)) ts False fs)) r"
        "\<forall>q. index (snd (addNode (FsDirNode rp [] (fresh_stats ts)) ts False fs)) q \<noteq> None
                \<longrightarrow> index fs q \<noteq> None \<or> q = rp"
        using k fresh by simp_all
      have "snd (MemoryFs_mkdir ctx p opts now fs) = fs
            \<or> snd (MemoryFs_mkdir ctx p opts now fs) = snd (addNode (FsDirNode rp [] (fresh_stats ts)) ts False fs)"
        using absent nonrec
        by (auto simp: MemoryFs_mkdir_def Let_def defs split: lookup.splits FsNode.splits)
      then show ?thesis
      proof
        assume e: "snd (MemoryFs_mkdir ctx p opts now fs) = fs"
        show ?thesis unfolding e using t d by simp
      next
        assume e: "snd (MemoryFs_mkdir ctx p opts now fs)
                     = snd (addNode (FsDirNode rp [] (fresh_stats ts)) ts False fs)"
        have "\<forall>q. index (snd (addNode (FsDirNode rp [] (fresh_stats ts)) ts False fs)) q \<noteq> None
                \<longrightarrow> index fs q \<noteq> None \<or> q \<in> set (getPaths rp) \<or> q = rp"
          using ka(3) by blast
        then show ?thesis unfolding e using ka(1,2) by blast
      qed
    next
      case isrec: True
      show ?thesis
      proof (cases "hasPathAvailable fs rp")
        case False
        then have "snd (MemoryFs_mkdir ctx p opts now fs) = fs"
          using absent isrec by (auto simp: MemoryFs_mkdir_def Let_def defs)
        then show ?thesis using t d by simp
      next
        case True
        obtain r' fs1 where l: "mkdir_loop (getPaths rp) ts fs = (r', fs1)"
          by (cases "mkdir_loop (getPaths rp) ts fs")
        from mkdir_loop_keeps [OF t d getPaths_normal [OF n(2,1)], of ts] l
        have k: "exactly_indexed fs1" "dir_at fs1 r"
          "\<forall>q. index fs1 q \<noteq> None \<longrightarrow> index fs q \<noteq> None \<or> q \<in> set (getPaths rp)"
          by simp_all
        have m: "MemoryFs_mkdir ctx p opts now fs = (case r' of Ok u \<Rightarrow> rebuildIndex fs1 | _ \<Rightarrow> (r', fs1))"
          using absent isrec True l
          by (auto simp: MemoryFs_mkdir_def Let_def defs split: outcome.splits)
        show ?thesis
        proof (cases r')
          case (Ok u)
          from rebuildIndex_dir [OF k(1,2)] have rd: "dir_at (snd (rebuildIndex fs1)) r" by auto
          from exactly_indexed_rebuildIndex [OF k(1)]
          have rx: "exactly_indexed (snd (rebuildIndex fs1))"
            "\<forall>q. index (snd (rebuildIndex fs1)) q \<noteq> None \<longrightarrow> index fs1 q \<noteq> None"
            by blast+
          have eq: "snd (MemoryFs_mkdir ctx p opts now fs) = snd (rebuildIndex fs1)" using m Ok by simp
          have "\<forall>q. index (snd (rebuildIndex fs1)) q \<noteq> None
                  \<longrightarrow> index fs q \<noteq> None \<or> q \<in> set (getPaths rp) \<or> q = rp"
            using rx(2) k(3) by blast
          then show ?thesis unfolding eq using rd rx(1) by blast
        next
          case (Err e)
          then have "snd (MemoryFs_mkdir ctx p opts now fs) = fs1" using m by simp
          then show ?thesis using k by simp blast
        next
          case Thrown
          then have "snd (MemoryFs_mkdir ctx p opts now fs) = fs1" using m by simp
          then show ?thesis using k by simp blast
        next
          case Diverged
          then have "snd (MemoryFs_mkdir ctx p opts now fs) = fs1" using m by simp
          then show ?thesis using k by simp blast
        qed
      qed
    qed
  qed
qed

lemma write_keeps:
  assumes abs: "isAbsolute (jail ctx)"
    and injail: "prefix (jail ctx) (Path_dirname (resolveWithinJail (jail ctx) (pwd ctx) p))"
    and t: "exactly_indexed fs" and d: "dir_at fs ''/''"
  shows "exactly_indexed (snd (MemoryFs_write ctx p c opts now fs))
         \<and> dir_at (snd (MemoryFs_write ctx p c opts now fs)) ''/''"
proof -
  define rp where "rp = resolveWithinJail (jail ctx) (pwd ctx) p"
  define ts where "ts = or_now (timestamp opts) now"
  define rec where "rec = (case recursive opts of Some r \<Rightarrow> r | None \<Rightarrow> True)"
  define newfile where "newfile = FsFileNode c rp (fresh_stats ts)"
  note defs = rp_def [symmetric] ts_def [symmetric] rec_def [symmetric] newfile_def [symmetric]
  have n: "cleanPath rp = rp" "isAbsolute rp" using resolveWithinJail_normal [OF abs] rp_def by simp_all
  have rr: "Path_resolve ''/'' rp = rp" using resolve_root_resolveWithinJail [OF abs] rp_def by simp
  have fp: "node_path newfile = rp" by (simp add: newfile_def)
  show ?thesis
  proof (cases "getNode fs rp")
    case (Node i node)
    then have i: "i < length (nodes fs)" "nodes fs ! i = Some node" by (simp_all add: getNode_Node_iff)
    show ?thesis
    proof (cases node)
      case (FsDirNode dp ch st)
      then have "snd (MemoryFs_write ctx p c opts now fs) = fs"
        using Node by (simp add: MemoryFs_write_def Let_def defs)
      then show ?thesis using t d by simp
    next
      case (FsFileNode old fp' st)
      define fs1 where "fs1 = put_node i (FsFileNode c fp' (st\<lparr>mtime := Some ts\<rparr>)) fs"
      have t1: "exactly_indexed fs1"
        unfolding fs1_def by (rule exactly_indexed_put_node [OF t i]) (simp add: FsFileNode)
      have d1: "dir_at fs1 ''/''"
        unfolding fs1_def by (rule dir_at_put_node [OF d i(2)]) (simp add: FsFileNode)
      show ?thesis
      proof (cases "getParent fs1 rp")
        case par: (Node j parent)
        then have j: "j < length (nodes fs1)" "nodes fs1 ! j = Some parent"
          by (simp_all add: getParent_def getNode_Node_iff)
        show ?thesis
        proof (cases parent)
          case pd: (FsDirNode pp ch pst)
          define m where "m = FsDirNode pp ch (pst\<lparr>mtime := Some ts\<rparr>)"
          have res: "snd (MemoryFs_write ctx p c opts now fs) = put_node j m fs1"
            using Node FsFileNode par pd
            by (simp add: MemoryFs_write_def Let_def defs fs1_def [symmetric] m_def)
          have "exactly_indexed (put_node j m fs1)"
            by (rule exactly_indexed_put_node [OF t1 j]) (simp add: m_def pd)
          moreover have "dir_at (put_node j m fs1) ''/''"
            by (rule dir_at_put_node [OF d1 j(2)]) (simp add: m_def pd)
          ultimately show ?thesis unfolding res by simp
        next
          case pf: (FsFileNode pc pp pst)
          then have "snd (MemoryFs_write ctx p c opts now fs) = fs1"
            using Node FsFileNode par by (simp add: MemoryFs_write_def Let_def defs fs1_def [symmetric])
          then show ?thesis using t1 d1 by simp
        qed
      next
        case Null
        then have "snd (MemoryFs_write ctx p c opts now fs) = fs1"
          using Node FsFileNode by (simp add: MemoryFs_write_def Let_def defs fs1_def [symmetric])
        then show ?thesis using t1 d1 by simp
      next
        case Undefined
        then have "snd (MemoryFs_write ctx p c opts now fs) = fs1"
          using Node FsFileNode by (simp add: MemoryFs_write_def Let_def defs fs1_def [symmetric])
        then show ?thesis using t1 d1 by simp
      qed
    qed
  next
    case Undefined
    then show ?thesis using exactly_indexed_lookup [OF t, of rp] t
      by (auto simp: exactly_indexed_def index_consistent_def getNode_def file_at_def dir_at_def
               split: option.splits if_splits dest: nth_mem)
  next
    case Null
    then have fresh: "index fs rp = None" by (simp add: getNode_Null_iff rr)
    note add = addNode_keeps [OF _ _ _, of _ newfile "''/''" ts]
    show ?thesis
    proof (cases "rec \<and> getParent fs rp = Null")
      case False
      then have "snd (MemoryFs_write ctx p c opts now fs) = fs
                 \<or> snd (MemoryFs_write ctx p c opts now fs) = snd (addNode newfile ts False fs)"
        using Null by (auto simp: MemoryFs_write_def Let_def defs split: lookup.splits FsNode.splits)
      then show ?thesis using add [OF t _ d] fresh fp t d by auto
    next
      case True
      from normal_path_parts [OF n(2,1)] obtain cs where cs: "proper_parts cs" "rp = path_of cs" by blast
      have r0: "path_of [] = ''/''" by (simp add: path_of_def)
      have "cs \<noteq> []" using Null d cs(2) r0 by (auto simp: dir_at_def)
      then obtain ds x where dx: "cs = ds @ [x]" by (cases cs rule: rev_cases) auto
      have px: "proper_parts [x]" and dp: "proper_parts ds"
        using cs(1) dx by (simp_all add: proper_parts_def)
      have dn: "Path_dirname rp = path_of ds" using dirname_path_of [OF dp px] cs(2) dx by simp
      have fixed: "resolveWithinJail (jail ctx) (pwd ctx) (path_of ds) = path_of ds"
        using resolveWithinJail_fixed [of "path_of ds" "jail ctx" "pwd ctx"] cleanPath_path_of [OF dp] injail
        by (simp add: dn rp_def [symmetric] isAbsolute_def path_of_def)
      define mo where "mo = \<lparr>recursive = Some True, timestamp = Some ts, rebuildIndexOpt = None\<rparr>"
      obtain r' fs1 where m: "MemoryFs_mkdir ctx (path_of ds) mo now fs = (r', fs1)"
        by (cases "MemoryFs_mkdir ctx (path_of ds) mo now fs")
      from mkdir_keeps [OF abs t d fixed [symmetric], of mo now] m
      have k: "exactly_indexed fs1" "dir_at fs1 ''/''"
        "\<forall>q. index fs1 q \<noteq> None \<longrightarrow> index fs q \<noteq> None \<or> q \<in> set (getPaths (path_of ds)) \<or> q = path_of ds"
        by simp_all
      have "rp \<noteq> path_of ds" using path_of_length [OF px, of ds] cs(2) dx by auto
      moreover have "rp \<notin> set (getPaths (path_of ds))"
        using not_in_getPaths_dirname [OF dp px] cs(2) dx by simp
      ultimately have fresh1: "index fs1 rp = None" using k(3) fresh by blast
      have "snd (MemoryFs_write ctx p c opts now fs) = fs1
            \<or> snd (MemoryFs_write ctx p c opts now fs) = snd (addNode newfile ts False fs1)"
        using Null True m
        by (auto simp: MemoryFs_write_def Let_def defs dn mo_def [symmetric]
                 split: outcome.splits lookup.splits FsNode.splits)
      then show ?thesis using add [OF k(1) _ k(2)] fresh1 fp k by auto
    qed
  qed
qed

lemma read_keeps:
  assumes t: "exactly_indexed fs" and d: "dir_at fs r"
  shows "exactly_indexed (snd (MemoryFs_read ctx p now fs)) \<and> dir_at (snd (MemoryFs_read ctx p now fs)) r"
proof -
  define rp where "rp = resolveWithinJail (jail ctx) (pwd ctx) p"
  show ?thesis
  proof (cases "\<exists>i c fp st. getNode fs rp = Node i (FsFileNode c fp st)")
    case False
    then have "snd (MemoryFs_read ctx p now fs) = fs"
      by (auto simp: MemoryFs_read_def Let_def rp_def [symmetric] split: lookup.splits FsNode.splits)
    then show ?thesis using t d by simp
  next
    case True
    then obtain i c fp st where g: "getNode fs rp = Node i (FsFileNode c fp st)" by blast
    then have i: "i < length (nodes fs)" "nodes fs ! i = Some (FsFileNode c fp st)"
      by (simp_all add: getNode_Node_iff)
    define fs1 where "fs1 = put_node i (FsFileNode c fp (st\<lparr>atime := Some now\<rparr>)) fs"
    have t1: "exactly_indexed fs1"
      unfolding fs1_def by (rule exactly_indexed_put_node [OF t i]) simp
    have d1: "dir_at fs1 r"
      unfolding fs1_def by (rule dir_at_put_node [OF d i(2)]) simp
    show ?thesis
    proof (cases "getNode fs1 (Path_dirname fp)")
      case (Node j parent)
      then have j: "j < length (nodes fs1)" "nodes fs1 ! j = Some parent"
        by (simp_all add: getNode_Node_iff)
      define m where "m = set_stats ((node_stats parent)\<lparr>atime := Some now\<rparr>) parent"
      have res: "snd (MemoryFs_read ctx p now fs) = put_node j m fs1"
        using g Node by (simp add: MemoryFs_read_def Let_def rp_def [symmetric] fs1_def [symmetric] m_def)
      have "exactly_indexed (put_node j m fs1)"
        by (rule exactly_indexed_put_node [OF t1 j]) (cases parent; simp add: m_def)
      moreover have "dir_at (put_node j m fs1) r"
        by (rule dir_at_put_node [OF d1 j(2)]) (cases parent; simp add: m_def)
      ultimately show ?thesis unfolding res by simp
    next
      case Null
      then have "snd (MemoryFs_read ctx p now fs) = fs1"
        using g by (simp add: MemoryFs_read_def Let_def rp_def [symmetric] fs1_def [symmetric])
      then show ?thesis using t1 d1 by simp
    next
      case Undefined
      then have "snd (MemoryFs_read ctx p now fs) = fs1"
        using g by (simp add: MemoryFs_read_def Let_def rp_def [symmetric] fs1_def [symmetric])
      then show ?thesis using t1 d1 by simp
    qed
  qed
qed

lemma utimes_keeps:
  assumes t: "exactly_indexed fs" and d: "dir_at fs r"
  shows "exactly_indexed (snd (MemoryFs_utimes ctx p st fs)) \<and> dir_at (snd (MemoryFs_utimes ctx p st fs)) r"
proof (cases "getNode fs (resolveWithinJail (jail ctx) (pwd ctx) p)")
  case (Node i node)
  then have i: "i < length (nodes fs)" "nodes fs ! i = Some node" by (simp_all add: getNode_Node_iff)
  define m where "m = set_stats (merge_stats (node_stats node) st) node"
  have res: "snd (MemoryFs_utimes ctx p st fs) = put_node i m fs"
    using Node by (simp add: MemoryFs_utimes_def Let_def m_def)
  have "exactly_indexed (put_node i m fs)"
    by (rule exactly_indexed_put_node [OF t i]) (cases node; simp add: m_def)
  moreover have "dir_at (put_node i m fs) r"
    by (rule dir_at_put_node [OF d i(2)]) (cases node; simp add: m_def)
  ultimately show ?thesis unfolding res by simp
qed (use t d in \<open>simp_all add: MemoryFs_utimes_def Let_def\<close>)

lemma reachable_without_rm_exactly_indexed:
  "reachable_without_rm fs \<Longrightarrow> exactly_indexed fs \<and> dir_at fs ''/''"
proof (induction rule: reachable_without_rm.induct)
  case (wo_empty root t)
  show ?case by (rule exactly_indexed_empty)
next
  case (wo_read fs ctx p now)
  then show ?case using read_keeps [of fs "''/''" ctx p now] by simp
next
  case (wo_write fs ctx p c opts now)
  then show ?case using write_keeps [of ctx p fs c opts now] by simp
next
  case (wo_mkdir fs ctx p opts now)
  then show ?case using mkdir_keeps [OF wo_mkdir(2) _ _ refl, of fs "''/''" p opts now] by simp
next
  case (wo_utimes fs ctx p st)
  then show ?case using utimes_keeps [of fs "''/''" ctx p st] by simp
qed

section \<open>Writing, reading and the timestamps\<close>

lemma write_new_file:
  assumes abs: "isAbsolute (jail ctx)"
    and rp: "rp = resolveWithinJail (jail ctx) (pwd ctx) p"
    and absent: "getNode fs rp = Null \<or> getNode fs rp = Undefined"
    and parent: "getParent fs rp = Node j (FsDirNode pp ch pst)"
    and ts: "ts = or_now (timestamp opts) now"
  shows "MemoryFs_write ctx p c opts now fs =
     (Ok (), fs\<lparr>index := (index fs)(rp \<mapsto> length (nodes fs)),
                 nodes := (nodes fs @ [Some (FsFileNode c rp (fresh_stats ts))])
                            [j := Some (FsDirNode pp (sort (ch @ [rp])) (pst\<lparr>mtime := Some ts\<rparr>))]\<rparr>)"
proof -
  have rr: "Path_resolve ''/'' rp = rp"
    using resolve_root_resolveWithinJail [OF abs] rp by simp
  from parent have pj: "index fs (Path_resolve ''/'' (Path_dirname rp)) = Some j"
    "j < length (nodes fs)" "nodes fs ! j = Some (FsDirNode pp ch pst)"
    by (simp_all add: getParent_def getNode_Node_iff rr)
  have ne: "Path_resolve ''/'' (Path_dirname rp) \<noteq> rp"
  proof
    assume "Path_resolve ''/'' (Path_dirname rp) = rp"
    then have "getNode fs rp = Node j (FsDirNode pp ch pst)"
      using pj by (simp add: getNode_Node_iff rr)
    then show False using absent by auto
  qed
  define fs1 where "fs1 = fs\<lparr>index := (index fs)(rp \<mapsto> length (nodes fs)),
                   nodes := nodes fs @ [Some (FsFileNode c rp (fresh_stats ts))]\<rparr>"
  have look: "getNode fs1 (Path_dirname rp) = Node j (FsDirNode pp ch pst)"
    using pj ne by (simp add: getNode_Node_iff fs1_def nth_append)
  have add: "addNode (FsFileNode c rp (fresh_stats ts)) ts False fs =
     (Ok (), put_node j (FsDirNode pp (sort (ch @ [rp])) (pst\<lparr>mtime := Some ts\<rparr>)) fs1)"
    using look by (simp add: addNode_def Let_def fs1_def [symmetric])
  have "MemoryFs_write ctx p c opts now fs = addNode (FsFileNode c rp (fresh_stats ts)) ts False fs"
    using absent parent by (auto simp: MemoryFs_write_def Let_def rp [symmetric] ts [symmetric])
  then show ?thesis by (simp add: add put_node_def fs1_def)
qed

lemma touch_touch: "touch_atime now (touch_atime now n) = touch_atime now n"
  by (cases n) (simp_all add: touch_atime_def)

lemma read_Ok_frame:
  assumes ok: "fst (MemoryFs_read ctx p now fs) = Ok c"
    and rp: "rp = resolveWithinJail (jail ctx) (pwd ctx) p"
  shows "\<exists>i j fp st nj.
           getNode fs rp = Node i (FsFileNode c fp st)
           \<and> index fs (Path_resolve ''/'' (Path_dirname fp)) = Some j
           \<and> j < length (nodes fs) \<and> nodes fs ! j = Some nj
           \<and> snd (MemoryFs_read ctx p now fs) =
               fs\<lparr>nodes := (nodes fs)[i := Some (touch_atime now (FsFileNode c fp st)),
                                       j := Some (touch_atime now nj)]\<rparr>"
proof -
  from ok obtain i fp st where n: "getNode fs rp = Node i (FsFileNode c fp st)"
    by (auto simp: MemoryFs_read_def Let_def rp [symmetric] split: lookup.splits FsNode.splits)
  define fs1 where "fs1 = put_node i (FsFileNode c fp (st\<lparr>atime := Some now\<rparr>)) fs"
  from ok n obtain j parent where par: "getNode fs1 (Path_dirname fp) = Node j parent"
    by (auto simp: MemoryFs_read_def Let_def rp [symmetric] fs1_def [symmetric] split: lookup.splits)
  then have j: "index fs (Path_resolve ''/'' (Path_dirname fp)) = Some j" "j < length (nodes fs)"
    by (simp_all add: getNode_Node_iff fs1_def put_node_def)
  from n have i: "i < length (nodes fs)" "nodes fs ! i = Some (FsFileNode c fp st)"
    by (simp_all add: getNode_Node_iff)
  have res: "snd (MemoryFs_read ctx p now fs) = put_node j (touch_atime now parent) fs1"
    using n par by (simp add: MemoryFs_read_def Let_def rp [symmetric] fs1_def [symmetric] touch_atime_def)
  have t: "touch_atime now (FsFileNode c fp st) = FsFileNode c fp (st\<lparr>atime := Some now\<rparr>)"
    by (simp add: touch_atime_def)
  show ?thesis
  proof (cases "j = i")
    case True
    then have "parent = FsFileNode c fp (st\<lparr>atime := Some now\<rparr>)"
      using par i by (simp add: getNode_Node_iff fs1_def put_node_def)
    then show ?thesis using n j i True res t touch_touch [of now "FsFileNode c fp st"]
      by (auto simp: fs1_def put_node_def)
  next
    case False
    then have "nodes fs ! j = Some parent"
      using par by (simp add: getNode_Node_iff fs1_def put_node_def)
    then show ?thesis using n j res t by (auto simp: fs1_def put_node_def)
  qed
qed

lemma add_then_read:
  assumes abs: "isAbsolute (jail ctx)"
    and rp: "rp = resolveWithinJail (jail ctx) (pwd ctx) p"
    and ok: "fst (addNode (FsFileNode c rp st0) ts False fs0) = Ok ()"
  shows "fst (MemoryFs_read ctx p now' (snd (addNode (FsFileNode c rp st0) ts False fs0))) = Ok c"
proof -
  have rr: "Path_resolve ''/'' rp = rp"
    using resolve_root_resolveWithinJail [OF abs] rp by simp
  define fs1 where "fs1 = fs0\<lparr>index := (index fs0)(rp \<mapsto> length (nodes fs0)),
                   nodes := nodes fs0 @ [Some (FsFileNode c rp st0)]\<rparr>"
  from ok obtain j pp ch pst where par: "getNode fs1 (Path_dirname rp) = Node j (FsDirNode pp ch pst)"
    by (auto simp: addNode_def Let_def fs1_def [symmetric] split: lookup.splits FsNode.splits)
  define fs2 where "fs2 = put_node j (FsDirNode pp (sort (ch @ [rp])) (pst\<lparr>mtime := Some ts\<rparr>)) fs1"
  have res: "snd (addNode (FsFileNode c rp st0) ts False fs0) = fs2"
    using par by (simp add: addNode_def Let_def fs1_def [symmetric] fs2_def)
  from par have j: "index fs1 (Path_resolve ''/'' (Path_dirname rp)) = Some j" "j < length (nodes fs1)"
    "nodes fs1 ! j = Some (FsDirNode pp ch pst)"
    by (simp_all add: getNode_Node_iff)
  have jl: "j \<noteq> length (nodes fs0)" using j(3) by (auto simp: fs1_def)
  have n: "getNode fs2 rp = Node (length (nodes fs0)) (FsFileNode c rp st0)"
    using jl by (simp add: getNode_Node_iff rr fs2_def put_node_def fs1_def)
  define fs3 where "fs3 = put_node (length (nodes fs0)) (FsFileNode c rp (st0\<lparr>atime := Some now'\<rparr>)) fs2"
  have "index fs3 (Path_resolve ''/'' (Path_dirname rp)) = Some j"
    using j(1) by (simp add: fs3_def fs2_def put_node_def)
  moreover have "j < length (nodes fs3)" using j(2) by (simp add: fs3_def fs2_def put_node_def)
  moreover have "\<exists>m. nodes fs3 ! j = Some m"
    using j(2) jl by (simp add: fs3_def fs2_def put_node_def)
  ultimately obtain m where "getNode fs3 (Path_dirname rp) = Node j m"
    by (auto simp: getNode_Node_iff)
  then show ?thesis
    using n by (simp add: res MemoryFs_read_def Let_def rp [symmetric] fs3_def [symmetric])
qed

lemma overwrite_then_read:
  assumes su: "stored_under fs rp"
    and rp: "rp = resolveWithinJail (jail ctx) (pwd ctx) p"
    and n: "getNode fs rp = Node i (FsFileNode old fp st)"
    and ok: "fst (MemoryFs_write ctx p c opts now fs) = Ok ()"
  shows "fst (MemoryFs_read ctx p now' (snd (MemoryFs_write ctx p c opts now fs))) = Ok c"
proof -
  define ts where "ts = or_now (timestamp opts) now"
  define fs1 where "fs1 = put_node i (FsFileNode c fp (st\<lparr>mtime := Some ts\<rparr>)) fs"
  from n have i: "index fs (Path_resolve ''/'' rp) = Some i" "i < length (nodes fs)"
    "nodes fs ! i = Some (FsFileNode old fp st)"
    by (simp_all add: getNode_Node_iff)
  have fp: "fp = Path_resolve ''/'' rp"
    using su n by (simp add: stored_under_def)
  from ok n obtain j pp ch pst where par: "getParent fs1 rp = Node j (FsDirNode pp ch pst)"
    by (auto simp: MemoryFs_write_def Let_def rp [symmetric] ts_def [symmetric] fs1_def [symmetric]
             split: lookup.splits FsNode.splits)
  define fs2 where "fs2 = put_node j (FsDirNode pp ch (pst\<lparr>mtime := Some ts\<rparr>)) fs1"
  have res: "snd (MemoryFs_write ctx p c opts now fs) = fs2"
    using n par
    by (simp add: MemoryFs_write_def Let_def rp [symmetric] ts_def [symmetric] fs1_def [symmetric] fs2_def)
  from par have j: "index fs1 (Path_resolve ''/'' (Path_dirname fp)) = Some j" "j < length (nodes fs1)"
    "nodes fs1 ! j = Some (FsDirNode pp ch pst)"
    by (simp_all add: getParent_def getNode_Node_iff fp)
  have ji: "j \<noteq> i" using j(3) i(2) by (auto simp: fs1_def put_node_def)
  have n2: "getNode fs2 rp = Node i (FsFileNode c fp (st\<lparr>mtime := Some ts\<rparr>))"
    using i ji by (simp add: getNode_Node_iff fs2_def put_node_def fs1_def)
  define fs3 where "fs3 = put_node i (FsFileNode c fp (st\<lparr>mtime := Some ts, atime := Some now'\<rparr>)) fs2"
  have "index fs3 (Path_resolve ''/'' (Path_dirname fp)) = Some j"
    using j(1) by (simp add: fs3_def fs2_def put_node_def fs1_def)
  moreover have "j < length (nodes fs3)" using j(2) by (simp add: fs3_def fs2_def put_node_def fs1_def)
  moreover have "\<exists>m. nodes fs3 ! j = Some m"
    using j(2) ji by (simp add: fs3_def fs2_def put_node_def fs1_def)
  ultimately obtain m where "getNode fs3 (Path_dirname fp) = Node j m"
    by (auto simp: getNode_Node_iff)
  then show ?thesis
    using n2 by (simp add: res MemoryFs_read_def Let_def rp [symmetric] fs3_def [symmetric])
qed

lemma write_then_read:
  assumes abs: "isAbsolute (jail ctx)"
    and su: "stored_under fs (resolveWithinJail (jail ctx) (pwd ctx) p)"
    and ok: "fst (MemoryFs_write ctx p c opts now fs) = Ok ()"
  shows "fst (MemoryFs_read ctx p now' (snd (MemoryFs_write ctx p c opts now fs))) = Ok c"
proof -
  define rp where "rp = resolveWithinJail (jail ctx) (pwd ctx) p"
  define ts where "ts = or_now (timestamp opts) now"
  define rec where "rec = (case recursive opts of Some r \<Rightarrow> r | None \<Rightarrow> True)"
  note defs = rp_def [symmetric] ts_def [symmetric] rec_def [symmetric]
  have su': "stored_under fs rp" using su by (simp add: rp_def)
  show ?thesis
  proof (cases "\<exists>i n. getNode fs rp = Node i n")
    case True
    then obtain i n where n: "getNode fs rp = Node i n" by blast
    show ?thesis
    proof (cases n)
      case (FsFileNode old fp st)
      then show ?thesis using overwrite_then_read [OF su' rp_def _ ok] n by simp
    next
      case (FsDirNode dp ch st)
      then have "fst (MemoryFs_write ctx p c opts now fs) = Err PATH_NOT_FOUND"
        using n by (simp add: MemoryFs_write_def Let_def defs)
      then show ?thesis using ok by simp
    qed
  next
    case False
    then have absent: "getNode fs rp = Null \<or> getNode fs rp = Undefined"
      by (cases "getNode fs rp") auto
    show ?thesis
    proof (cases "rec \<and> getParent fs rp = Null")
      case True
      obtain r fs1 where m: "MemoryFs_mkdir ctx (Path_dirname rp)
           \<lparr>recursive = Some rec, timestamp = Some ts, rebuildIndexOpt = None\<rparr> now fs = (r, fs1)"
        by (cases "MemoryFs_mkdir ctx (Path_dirname rp)
           \<lparr>recursive = Some rec, timestamp = Some ts, rebuildIndexOpt = None\<rparr> now fs")
      have w: "MemoryFs_write ctx p c opts now fs =
          (case r of Ok u \<Rightarrow> (case getParent fs1 rp of
                           Node j (FsDirNode pp children pst) \<Rightarrow> addNode (FsFileNode c rp (fresh_stats ts)) ts False fs1
                         | _ \<Rightarrow> (Thrown, fs1))
           | _ \<Rightarrow> (r, fs1))"
        using absent True m
        by (auto simp: MemoryFs_write_def Let_def defs split: outcome.splits)
      from ok w have "MemoryFs_write ctx p c opts now fs = addNode (FsFileNode c rp (fresh_stats ts)) ts False fs1"
        by (auto split: outcome.splits lookup.splits FsNode.splits)
      then show ?thesis
        using add_then_read [OF abs rp_def, of c "fresh_stats ts" ts fs1 now'] ok
        by simp
    next
      case False
      then have w: "MemoryFs_write ctx p c opts now fs =
          (case getParent fs rp of
             Node j (FsDirNode pp children pst) \<Rightarrow> addNode (FsFileNode c rp (fresh_stats ts)) ts False fs
           | _ \<Rightarrow> (Err PATH_UNAVAILABLE, fs))"
        using absent by (auto simp: MemoryFs_write_def Let_def defs)
      from ok w have "MemoryFs_write ctx p c opts now fs = addNode (FsFileNode c rp (fresh_stats ts)) ts False fs"
        by (auto split: lookup.splits FsNode.splits)
      then show ?thesis
        using add_then_read [OF abs rp_def, of c "fresh_stats ts" ts fs now'] ok
        by simp
    qed
  qed
qed

lemma reachable_index_consistent: "reachable_from_empty fs \<Longrightarrow> index_consistent fs"
proof (induction rule: reachable_from_empty.induct)
  case (at_empty root t)
  show ?case by (rule index_consistent_empty)
next
  case (at_read fs ctx p now)
  then show ?case by (simp add: index_consistent_read)
next
  case (at_write fs ctx p c opts now)
  then show ?case by (simp add: index_consistent_write)
next
  case (at_mkdir fs ctx p opts now)
  then show ?case by (simp add: index_consistent_mkdir)
next
  case (at_rm fs k ctx p opts now)
  then show ?case by (simp add: index_consistent_rm)
next
  case (at_rmdir fs k ctx p opts now)
  then show ?case by (simp add: index_consistent_rmdir)
next
  case (at_utimes fs ctx p st)
  then show ?case by (simp add: index_consistent_utimes)
qed

lemma reachable_stored_under: "reachable_from_empty fs \<Longrightarrow> stored_under fs q"
  by (rule index_consistent_stored_under [OF reachable_index_consistent])

lemma write_below_file:
  assumes absent: "getNode fs (resolveWithinJail (jail ctx) (pwd ctx) p) = Null
                   \<or> getNode fs (resolveWithinJail (jail ctx) (pwd ctx) p) = Undefined"
    and parent: "getParent fs (resolveWithinJail (jail ctx) (pwd ctx) p) = Node j (FsFileNode pc pp pst)"
  shows "MemoryFs_write ctx p c opts now fs = (Err PATH_UNAVAILABLE, fs)"
  using absent parent by (auto simp: MemoryFs_write_def Let_def)

lemma exactly_indexed_write_new:
  assumes abs: "isAbsolute (jail ctx)"
    and rp: "rp = resolveWithinJail (jail ctx) (pwd ctx) p"
    and t: "exactly_indexed fs"
    and absent: "getNode fs rp = Null"
    and parent: "getParent fs rp = Node j (FsDirNode pp ch pst)"
  shows "exactly_indexed (snd (MemoryFs_write ctx p c opts now fs))"
proof -
  define ts where "ts = or_now (timestamp opts) now"
  have rr: "Path_resolve ''/'' rp = rp"
    using resolve_root_resolveWithinJail [OF abs] rp by simp
  have iq: "index fs rp = None" using absent rr by (simp add: getNode_Null_iff)
  from parent have pj: "j < length (nodes fs)" "nodes fs ! j = Some (FsDirNode pp ch pst)"
    by (simp_all add: getParent_def getNode_Node_iff)
  define fs1 where "fs1 = fs\<lparr>index := (index fs)(rp \<mapsto> length (nodes fs)),
                   nodes := nodes fs @ [Some (FsFileNode c rp (fresh_stats ts))]\<rparr>"
  have t1: "exactly_indexed fs1"
    unfolding fs1_def using exactly_indexed_append [OF t, of "FsFileNode c rp (fresh_stats ts)"] iq by simp
  have j1: "j < length (nodes fs1)" "nodes fs1 ! j = Some (FsDirNode pp ch pst)"
    using pj by (simp_all add: fs1_def nth_append)
  have "snd (MemoryFs_write ctx p c opts now fs)
          = put_node j (FsDirNode pp (sort (ch @ [rp])) (pst\<lparr>mtime := Some ts\<rparr>)) fs1"
    using write_new_file [OF abs rp _ parent ts_def, of c] absent by (simp add: put_node_def fs1_def)
  moreover have "exactly_indexed (put_node j (FsDirNode pp (sort (ch @ [rp])) (pst\<lparr>mtime := Some ts\<rparr>)) fs1)"
    by (rule exactly_indexed_put_node [OF t1 j1]) simp
  ultimately show ?thesis by simp
qed

lemma exactly_indexed_engine_with_a: "exactly_indexed engine_with_a"
proof -
  have a: "isAbsolute (jail memory_context)" by code_simp
  have n: "getNode (MemoryFs_empty ''/'' 0)
             (resolveWithinJail (jail memory_context) (pwd memory_context) ''/a'') = Null"
    by code_simp
  have p: "getParent (MemoryFs_empty ''/'' 0)
             (resolveWithinJail (jail memory_context) (pwd memory_context) ''/a'')
           = Node 0 (FsDirNode ''/'' [] (fresh_stats 0))"
    by code_simp
  show ?thesis
    unfolding engine_with_a_def
    using exactly_indexed_write_new [OF a refl _ n p] exactly_indexed_empty by blast
qed

text \<open>
  C6 (as amended). With an absolute jail, \<open>rp\<close> the path that \<open>p\<close> resolves to within
  the jail, and \<open>ts\<close> the timestamp of the call:
  \<^item> when \<open>rp\<close> names a file and its parent is a directory, \<open>write(p, c)\<close> succeeds,
    and leaves the tree with the content and the \<open>mtime\<close> of the file and the \<open>mtime\<close>
    of the parent replaced;
  \<^item> when \<open>rp\<close> names no node and its parent is a directory, \<open>write\<close> succeeds;
  \<^item> when \<open>rp\<close> names no node and the index has no entry for its parent, \<open>write\<close>
    (unless called with \<open>recursive: false\<close>) creates the missing directories and
    succeeds, provided that the index lists exactly the nodes and \<open>nodes\<close> has no
    hole, the root directory exists, no ancestor of \<open>rp\<close> is a file
    (\<open>hasPathAvailable\<close>), \<open>rp\<close> has no part \<open>.\<close>, and the parent path starts with the
    jail;
  \<^item> when \<open>rp\<close> names no node and its parent is a file, \<open>write\<close> returns
    \<open>PATH_UNAVAILABLE\<close> and changes nothing;
  \<^item> when \<open>write(p, c)\<close> returns success, the \<open>read(p)\<close> that follows returns \<open>c\<close>,
    provided that the node which the index gave for \<open>rp\<close> before the \<open>write\<close>, if it
    gave one, carried the path \<open>rp\<close>.
\<close>

theorem write_then_read_returns_content:
  assumes "isAbsolute (jail ctx)" and "rp = resolveWithinJail (jail ctx) (pwd ctx) p"
    and "ts = or_now (timestamp opts) now"
  shows
   "(getNode fs rp = Node i (FsFileNode old fp st) \<and> getParent fs rp = Node j (FsDirNode dp ch dst)
       \<longrightarrow> MemoryFs_write ctx p c opts now fs =
             (Ok (), put_node j (FsDirNode dp ch (dst\<lparr>mtime := Some ts\<rparr>))
                       (put_node i (FsFileNode c fp (st\<lparr>mtime := Some ts\<rparr>)) fs)))
    \<and> ((getNode fs rp = Null \<or> getNode fs rp = Undefined)
         \<and> getParent fs rp = Node j (FsDirNode dp ch dst)
       \<longrightarrow> fst (MemoryFs_write ctx p c opts now fs) = Ok ())
    \<and> (getNode fs rp = Null \<and> getParent fs rp = Null \<and> recursive opts \<noteq> Some False
         \<and> exactly_indexed fs \<and> dir_at fs ''/'' \<and> hasPathAvailable fs (Path_dirname rp)
         \<and> ''.'' \<notin> set (split_slash rp) \<and> prefix (jail ctx) (Path_dirname rp)
       \<longrightarrow> fst (MemoryFs_write ctx p c opts now fs) = Ok ())
    \<and> ((getNode fs rp = Null \<or> getNode fs rp = Undefined)
         \<and> getParent fs rp = Node j (FsFileNode pc pp pst)
       \<longrightarrow> MemoryFs_write ctx p c opts now fs = (Err PATH_UNAVAILABLE, fs))
    \<and> (stored_under fs rp \<and> fst (MemoryFs_write ctx p c opts now fs) = Ok ()
       \<longrightarrow> fst (MemoryFs_read ctx p now' (snd (MemoryFs_write ctx p c opts now fs))) = Ok c)"
proof (intro conjI impI)
  assume "getNode fs rp = Node i (FsFileNode old fp st) \<and> getParent fs rp = Node j (FsDirNode dp ch dst)"
  then show "MemoryFs_write ctx p c opts now fs =
             (Ok (), put_node j (FsDirNode dp ch (dst\<lparr>mtime := Some ts\<rparr>))
                       (put_node i (FsFileNode c fp (st\<lparr>mtime := Some ts\<rparr>)) fs))"
    using overwrite_file [OF assms(2) _ _ assms(3)] by blast
next
  assume a: "(getNode fs rp = Null \<or> getNode fs rp = Undefined)
         \<and> getParent fs rp = Node j (FsDirNode dp ch dst)"
  then have absent: "getNode fs rp = Null \<or> getNode fs rp = Undefined"
    and par: "getParent fs rp = Node j (FsDirNode dp ch dst)"
    by blast+
  show "fst (MemoryFs_write ctx p c opts now fs) = Ok ()"
    by (simp add: write_new_file [OF assms(1,2) absent par assms(3)])
next
  assume a: "getNode fs rp = Null \<and> getParent fs rp = Null \<and> recursive opts \<noteq> Some False
         \<and> exactly_indexed fs \<and> dir_at fs ''/'' \<and> hasPathAvailable fs (Path_dirname rp)
         \<and> ''.'' \<notin> set (split_slash rp) \<and> prefix (jail ctx) (Path_dirname rp)"
  then have h: "getNode fs rp = Null" "getParent fs rp = Null" "recursive opts \<noteq> Some False"
    "exactly_indexed fs" "dir_at fs ''/''" "hasPathAvailable fs (Path_dirname rp)"
    "''.'' \<notin> set (split_slash rp)" "prefix (jail ctx) (Path_dirname rp)"
    by blast+
  show "fst (MemoryFs_write ctx p c opts now fs) = Ok ()"
    by (rule write_creates_parents [OF assms(1,2) h(4,5,1,2,3,6,7,8)])
next
  assume "(getNode fs rp = Null \<or> getNode fs rp = Undefined)
         \<and> getParent fs rp = Node j (FsFileNode pc pp pst)"
  then show "MemoryFs_write ctx p c opts now fs = (Err PATH_UNAVAILABLE, fs)"
    using write_below_file [of fs ctx p j pc pp pst c opts now] assms(2) by blast
next
  assume "stored_under fs rp \<and> fst (MemoryFs_write ctx p c opts now fs) = Ok ()"
  then show "fst (MemoryFs_read ctx p now' (snd (MemoryFs_write ctx p c opts now fs))) = Ok c"
    using write_then_read [OF assms(1), of fs p c opts now now'] assms(2) by blast
qed

theorem write_then_read_returns_content_witness:
  "isAbsolute (jail memory_context)
   \<and> getNode engine_with_a (resolveWithinJail (jail memory_context) (pwd memory_context) ''/a'')
       = Node 1 (FsFileNode ''x'' ''/a'' (fresh_stats 1))
   \<and> getParent engine_with_a (resolveWithinJail (jail memory_context) (pwd memory_context) ''/a'')
       = Node 0 (FsDirNode ''/'' [''/a''] \<lparr>mtime = Some 1, atime = Some 0, ctime = Some 0, btime = Some 0\<rparr>)
   \<and> fst (MemoryFs_write memory_context ''/a'' ''new'' no_options 5 engine_with_a) = Ok ()
   \<and> stored_under engine_with_a (resolveWithinJail (jail memory_context) (pwd memory_context) ''/a'')
   \<and> fst (MemoryFs_read memory_context ''/a'' 6
            (snd (MemoryFs_write memory_context ''/a'' ''new'' no_options 5 engine_with_a))) = Ok ''new''
   \<and> getNode engine_with_abc
         (resolveWithinJail (jail memory_context) (pwd memory_context) ''a/b/c/file'') = Null
   \<and> getParent engine_with_abc
         (resolveWithinJail (jail memory_context) (pwd memory_context) ''a/b/c/file'')
       = Node 3 (FsDirNode ''/a/b/c'' [] (fresh_stats 1))
   \<and> fst (MemoryFs_write memory_context ''a/b/c/file'' ''x'' no_options 2 engine_with_abc) = Ok ()
   \<and> getNode engine_with_a
         (resolveWithinJail (jail memory_context) (pwd memory_context) ''/path/to/example'') = Null
   \<and> getParent engine_with_a
         (resolveWithinJail (jail memory_context) (pwd memory_context) ''/path/to/example'') = Null
   \<and> recursive no_options \<noteq> Some False
   \<and> exactly_indexed engine_with_a \<and> dir_at engine_with_a ''/''
   \<and> hasPathAvailable engine_with_a
         (Path_dirname (resolveWithinJail (jail memory_context) (pwd memory_context) ''/path/to/example''))
   \<and> ''.'' \<notin> set (split_slash
         (resolveWithinJail (jail memory_context) (pwd memory_context) ''/path/to/example''))
   \<and> prefix (jail memory_context)
         (Path_dirname (resolveWithinJail (jail memory_context) (pwd memory_context) ''/path/to/example''))
   \<and> fst (MemoryFs_write memory_context ''/path/to/example'' ''an example message'' no_options 5
            engine_with_a) = Ok ()
   \<and> stored_under engine_with_a
         (resolveWithinJail (jail memory_context) (pwd memory_context) ''/path/to/example'')
   \<and> fst (MemoryFs_read memory_context ''/path/to/example'' 6
            (snd (MemoryFs_write memory_context ''/path/to/example'' ''an example message'' no_options 5
               engine_with_a))) = Ok ''an example message''
   \<and> getNode engine_with_a (resolveWithinJail (jail memory_context) (pwd memory_context) ''/a/b'') = Null
   \<and> getParent engine_with_a (resolveWithinJail (jail memory_context) (pwd memory_context) ''/a/b'')
       = Node 1 (FsFileNode ''x'' ''/a'' (fresh_stats 1))
   \<and> MemoryFs_write memory_context ''/a/b'' ''y'' no_options 2 engine_with_a
       = (Err PATH_UNAVAILABLE, engine_with_a)"
proof -
  have a: "isAbsolute (jail memory_context)" by code_simp
  have n1: "getNode engine_with_a (resolveWithinJail (jail memory_context) (pwd memory_context) ''/a'')
       = Node 1 (FsFileNode ''x'' ''/a'' (fresh_stats 1))"
    by code_simp
  have p1: "getParent engine_with_a (resolveWithinJail (jail memory_context) (pwd memory_context) ''/a'')
       = Node 0 (FsDirNode ''/'' [''/a''] \<lparr>mtime = Some 1, atime = Some 0, ctime = Some 0, btime = Some 0\<rparr>)"
    by code_simp
  have s1: "stored_under engine_with_a (resolveWithinJail (jail memory_context) (pwd memory_context) ''/a'')"
    by code_simp
  have n3: "getNode engine_with_abc
         (resolveWithinJail (jail memory_context) (pwd memory_context) ''a/b/c/file'') = Null"
    by code_simp
  have p3: "getParent engine_with_abc
         (resolveWithinJail (jail memory_context) (pwd memory_context) ''a/b/c/file'')
       = Node 3 (FsDirNode ''/a/b/c'' [] (fresh_stats 1))"
    by code_simp
  have n4: "getNode engine_with_a
         (resolveWithinJail (jail memory_context) (pwd memory_context) ''/path/to/example'') = Null"
    by code_simp
  have p4: "getParent engine_with_a
         (resolveWithinJail (jail memory_context) (pwd memory_context) ''/path/to/example'') = Null"
    by code_simp
  have r4: "recursive no_options \<noteq> Some False" by (simp add: no_options_def)
  have x4: "exactly_indexed engine_with_a" by (rule exactly_indexed_engine_with_a)
  have d4: "dir_at engine_with_a ''/''" by code_simp
  have h4: "hasPathAvailable engine_with_a
         (Path_dirname (resolveWithinJail (jail memory_context) (pwd memory_context) ''/path/to/example''))"
    by code_simp
  have o4: "''.'' \<notin> set (split_slash
         (resolveWithinJail (jail memory_context) (pwd memory_context) ''/path/to/example''))"
    by code_simp
  have j4: "prefix (jail memory_context)
         (Path_dirname (resolveWithinJail (jail memory_context) (pwd memory_context) ''/path/to/example''))"
    by code_simp
  have s4: "stored_under engine_with_a
         (resolveWithinJail (jail memory_context) (pwd memory_context) ''/path/to/example'')"
    by code_simp
  have n2: "getNode engine_with_a
      (resolveWithinJail (jail memory_context) (pwd memory_context) ''/a/b'') = Null"
    by code_simp
  have p2: "getParent engine_with_a
      (resolveWithinJail (jail memory_context) (pwd memory_context) ''/a/b'')
       = Node 1 (FsFileNode ''x'' ''/a'' (fresh_stats 1))"
    by code_simp
  note t1 = write_then_read_returns_content [OF a refl refl, where fs = engine_with_a
      and p = "''/a''" and c = "''new''" and opts = no_options and now = 5 and now' = 6
      and i = 1 and old = "''x''" and fp = "''/a''" and st = "fresh_stats 1"
      and j = 0 and dp = "''/''" and ch = "[''/a'']"
      and dst = "\<lparr>mtime = Some 1, atime = Some 0, ctime = Some 0, btime = Some 0\<rparr>"]
  note t3 = write_then_read_returns_content [OF a refl refl, where fs = engine_with_abc
      and p = "''a/b/c/file''" and c = "''x''" and opts = no_options and now = 2
      and j = 3 and dp = "''/a/b/c''" and ch = "[]" and dst = "fresh_stats 1"]
  note t4 = write_then_read_returns_content [OF a refl refl, where fs = engine_with_a
      and p = "''/path/to/example''" and c = "''an example message''" and opts = no_options
      and now = 5 and now' = 6]
  note t2 = write_then_read_returns_content [OF a refl refl, where fs = engine_with_a
      and p = "''/a/b''" and c = "''y''" and opts = no_options and now = 2
      and j = 1 and pc = "''x''" and pp = "''/a''" and pst = "fresh_stats 1"]
  have e1: "fst (MemoryFs_write memory_context ''/a'' ''new'' no_options 5 engine_with_a) = Ok ()"
    using t1 [THEN conjunct1] n1 p1 by simp
  have g1: "fst (MemoryFs_read memory_context ''/a'' 6
            (snd (MemoryFs_write memory_context ''/a'' ''new'' no_options 5 engine_with_a))) = Ok ''new''"
    using t1 s1 e1 by blast
  have e3: "fst (MemoryFs_write memory_context ''a/b/c/file'' ''x'' no_options 2 engine_with_abc) = Ok ()"
    using t3 n3 p3 by blast
  have e4: "fst (MemoryFs_write memory_context ''/path/to/example'' ''an example message'' no_options 5
            engine_with_a) = Ok ()"
    using t4 n4 p4 r4 x4 d4 h4 o4 j4 by blast
  have g4: "fst (MemoryFs_read memory_context ''/path/to/example'' 6
            (snd (MemoryFs_write memory_context ''/path/to/example'' ''an example message'' no_options 5
               engine_with_a))) = Ok ''an example message''"
    using t4 s4 e4 by blast
  have e2: "MemoryFs_write memory_context ''/a/b'' ''y'' no_options 2 engine_with_a
       = (Err PATH_UNAVAILABLE, engine_with_a)"
    using t2 n2 p2 by blast
  from a n1 p1 e1 s1 g1 n3 p3 e3 n4 p4 r4 x4 d4 h4 o4 j4 e4 s4 g4 n2 p2 e2 show ?thesis
    by (intro conjI)
qed

text \<open>
  C6 as stated fails: in the engine that holds the file \<open>/a\<close>, the path \<open>/a/b\<close> names
  nothing, and \<open>write("/a/b", "y")\<close> returns \<open>PATH_UNAVAILABLE\<close>.
\<close>

theorem write_below_file_unavailable:
  "MemoryFs_stats memory_context ''/a/b'' 2 engine_with_a = Err PATH_NOT_FOUND
   \<and> fst (MemoryFs_write memory_context ''/a/b'' ''y'' no_options 2 engine_with_a) = Err PATH_UNAVAILABLE"
  by code_simp

text \<open>
  Two of the provisos above, seen at work. With a part \<open>.\<close> in the path, the directories
  that \<open>mkdir\<close> creates are those of \<open>getPaths\<close>, in which \<open>join\<close> has dropped the part,
  and the parent that \<open>write\<close> looks up afterwards is not among them: \<open>write\<close> throws.
  With a file entered in the index under another path than it carries, \<open>write\<close>
  succeeds and \<open>read\<close> throws, because \<open>read\<close> looks for the parent of the path that
  the node carries.
\<close>

lemma write_dot_part_throws:
  "is_Thrown (fst (MemoryFs_write memory_context ''/a/./b/f'' ''x'' no_options 5 (MemoryFs_empty ''/'' 0)))"
  by code_simp

lemma read_after_write_mismatched:
  "(case MemoryFs_parse (JsonText mismatched_envelope) of
      Ok fs \<Rightarrow>
        fst (MemoryFs_write memory_context ''/a'' ''y'' no_options 5 fs) = Ok ()
        \<and> is_Thrown (fst (MemoryFs_read memory_context ''/a'' 6
              (snd (MemoryFs_write memory_context ''/a'' ''y'' no_options 5 fs))))
    | _ \<Rightarrow> False)"
  by code_simp

text \<open>
  C9. When \<open>write\<close> finds no node at the resolved path \<open>rp\<close> and finds the directory
  at position \<open>j\<close> as its parent, it succeeds, and the tree it leaves differs from the
  old one only in this: the new file, with all four timestamps set, is appended and
  indexed, and the parent at \<open>j\<close> has the new child and a new \<open>mtime\<close>; every other
  node, and the other three timestamps of the parent, are as before. When \<open>read\<close>
  succeeds, the tree it leaves differs from the old one only in the \<open>atime\<close> of the
  file (at \<open>i\<close>) and of the node at \<open>j\<close> that the index gives for the \<open>dirname\<close> of the
  file's path.
\<close>

theorem timestamp_frame:
  "(isAbsolute (jail ctx)
     \<and> (getNode fs (resolveWithinJail (jail ctx) (pwd ctx) p) = Null
          \<or> getNode fs (resolveWithinJail (jail ctx) (pwd ctx) p) = Undefined)
     \<and> getParent fs (resolveWithinJail (jail ctx) (pwd ctx) p) = Node j (FsDirNode pp ch pst)
    \<longrightarrow> j < length (nodes fs) \<and> nodes fs ! j = Some (FsDirNode pp ch pst)
        \<and> MemoryFs_write ctx p c opts now fs =
            (Ok (),
             fs\<lparr>index := (index fs)(resolveWithinJail (jail ctx) (pwd ctx) p \<mapsto> length (nodes fs)),
                nodes := (nodes fs)
                           [j := Some (FsDirNode pp
                                   (sort (ch @ [resolveWithinJail (jail ctx) (pwd ctx) p]))
                                   (pst\<lparr>mtime := Some (or_now (timestamp opts) now)\<rparr>))]
                         @ [Some (FsFileNode c (resolveWithinJail (jail ctx) (pwd ctx) p)
                                   (fresh_stats (or_now (timestamp opts) now)))]\<rparr>))
   \<and> (fst (MemoryFs_read ctx p now fs) = Ok c
    \<longrightarrow> (\<exists>i k fp st nk.
           getNode fs (resolveWithinJail (jail ctx) (pwd ctx) p) = Node i (FsFileNode c fp st)
           \<and> index fs (Path_resolve ''/'' (Path_dirname fp)) = Some k
           \<and> k < length (nodes fs) \<and> nodes fs ! k = Some nk
           \<and> snd (MemoryFs_read ctx p now fs) =
               fs\<lparr>nodes := (nodes fs)[i := Some (touch_atime now (FsFileNode c fp st)),
                                       k := Some (touch_atime now nk)]\<rparr>))"
proof (intro conjI impI)
  assume a: "isAbsolute (jail ctx)
     \<and> (getNode fs (resolveWithinJail (jail ctx) (pwd ctx) p) = Null
          \<or> getNode fs (resolveWithinJail (jail ctx) (pwd ctx) p) = Undefined)
     \<and> getParent fs (resolveWithinJail (jail ctx) (pwd ctx) p) = Node j (FsDirNode pp ch pst)"
  then have par: "getParent fs (resolveWithinJail (jail ctx) (pwd ctx) p) = Node j (FsDirNode pp ch pst)"
    by simp
  then show j: "j < length (nodes fs)" and "nodes fs ! j = Some (FsDirNode pp ch pst)"
    by (simp_all add: getParent_def getNode_Node_iff)
  from a have "MemoryFs_write ctx p c opts now fs =
     (Ok (), fs\<lparr>index := (index fs)(resolveWithinJail (jail ctx) (pwd ctx) p \<mapsto> length (nodes fs)),
                 nodes := (nodes fs @ [Some (FsFileNode c (resolveWithinJail (jail ctx) (pwd ctx) p)
                                   (fresh_stats (or_now (timestamp opts) now)))])
                            [j := Some (FsDirNode pp (sort (ch @ [resolveWithinJail (jail ctx) (pwd ctx) p]))
                                   (pst\<lparr>mtime := Some (or_now (timestamp opts) now)\<rparr>))]\<rparr>)"
    by (intro write_new_file) simp_all
  then show "MemoryFs_write ctx p c opts now fs =
            (Ok (),
             fs\<lparr>index := (index fs)(resolveWithinJail (jail ctx) (pwd ctx) p \<mapsto> length (nodes fs)),
                nodes := (nodes fs)
                           [j := Some (FsDirNode pp
                                   (sort (ch @ [resolveWithinJail (jail ctx) (pwd ctx) p]))
                                   (pst\<lparr>mtime := Some (or_now (timestamp opts) now)\<rparr>))]
                         @ [Some (FsFileNode c (resolveWithinJail (jail ctx) (pwd ctx) p)
                                   (fresh_stats (or_now (timestamp opts) now)))]\<rparr>)"
    using j by (simp add: list_update_append1)
next
  assume "fst (MemoryFs_read ctx p now fs) = Ok c"
  from read_Ok_frame [OF this refl]
  show "\<exists>i k fp st nk.
           getNode fs (resolveWithinJail (jail ctx) (pwd ctx) p) = Node i (FsFileNode c fp st)
           \<and> index fs (Path_resolve ''/'' (Path_dirname fp)) = Some k
           \<and> k < length (nodes fs) \<and> nodes fs ! k = Some nk
           \<and> snd (MemoryFs_read ctx p now fs) =
               fs\<lparr>nodes := (nodes fs)[i := Some (touch_atime now (FsFileNode c fp st)),
                                       k := Some (touch_atime now nk)]\<rparr>" .
qed


theorem timestamp_frame_witness:
  "isAbsolute (jail memory_context)
   \<and> getNode engine_with_abc
         (resolveWithinJail (jail memory_context) (pwd memory_context) ''a/b/c/file'') = Null
   \<and> getParent engine_with_abc
         (resolveWithinJail (jail memory_context) (pwd memory_context) ''a/b/c/file'')
       = Node 3 (FsDirNode ''/a/b/c'' [] (fresh_stats 1))
   \<and> MemoryFs_write memory_context ''a/b/c/file'' ''x'' no_options 2 engine_with_abc =
        (Ok (),
         engine_with_abc
           \<lparr>index := (index engine_with_abc)
               (resolveWithinJail (jail memory_context) (pwd memory_context) ''a/b/c/file''
                  \<mapsto> length (nodes engine_with_abc)),
            nodes := (nodes engine_with_abc)
                       [3 := Some (FsDirNode ''/a/b/c''
                               (sort ([] @ [resolveWithinJail (jail memory_context)
                                              (pwd memory_context) ''a/b/c/file'']))
                               ((fresh_stats 1)\<lparr>mtime := Some (or_now (timestamp no_options) 2)\<rparr>))]
                     @ [Some (FsFileNode ''x''
                               (resolveWithinJail (jail memory_context) (pwd memory_context)
                                  ''a/b/c/file'')
                               (fresh_stats (or_now (timestamp no_options) 2)))]\<rparr>)
   \<and> MemoryFs_stats memory_context ''/a'' 9 engine_with_file
       = Ok \<lparr>stat_atime = 1, stat_btime = 1, stat_ctime = 1, stat_mtime = 1,
             isFile = False, isDirectory = True\<rparr>
   \<and> MemoryFs_stats memory_context ''/a/b'' 9 engine_with_file
       = Ok \<lparr>stat_atime = 1, stat_btime = 1, stat_ctime = 1, stat_mtime = 1,
             isFile = False, isDirectory = True\<rparr>
   \<and> MemoryFs_stats memory_context ''/a/b/c'' 9 engine_with_file
       = Ok \<lparr>stat_atime = 1, stat_btime = 1, stat_ctime = 1, stat_mtime = 2,
             isFile = False, isDirectory = True\<rparr>
   \<and> fst (MemoryFs_read memory_context ''a/b/c/file'' 3 engine_with_file) = Ok ''x''
   \<and> (\<exists>i k fp st nk.
         getNode engine_with_file
           (resolveWithinJail (jail memory_context) (pwd memory_context) ''a/b/c/file'')
           = Node i (FsFileNode ''x'' fp st)
         \<and> index engine_with_file (Path_resolve ''/'' (Path_dirname fp)) = Some k
         \<and> k < length (nodes engine_with_file) \<and> nodes engine_with_file ! k = Some nk
         \<and> snd (MemoryFs_read memory_context ''a/b/c/file'' 3 engine_with_file) =
             engine_with_file
               \<lparr>nodes := (nodes engine_with_file)
                            [i := Some (touch_atime 3 (FsFileNode ''x'' fp st)),
                             k := Some (touch_atime 3 nk)]\<rparr>)"
proof -
  have a: "isAbsolute (jail memory_context)" by code_simp
  have n: "getNode engine_with_abc
         (resolveWithinJail (jail memory_context) (pwd memory_context) ''a/b/c/file'') = Null"
    by code_simp
  have p: "getParent engine_with_abc
         (resolveWithinJail (jail memory_context) (pwd memory_context) ''a/b/c/file'')
       = Node 3 (FsDirNode ''/a/b/c'' [] (fresh_stats 1))"
    by code_simp
  have s1: "MemoryFs_stats memory_context ''/a'' 9 engine_with_file
       = Ok \<lparr>stat_atime = 1, stat_btime = 1, stat_ctime = 1, stat_mtime = 1,
             isFile = False, isDirectory = True\<rparr>"
    by code_simp
  have s2: "MemoryFs_stats memory_context ''/a/b'' 9 engine_with_file
       = Ok \<lparr>stat_atime = 1, stat_btime = 1, stat_ctime = 1, stat_mtime = 1,
             isFile = False, isDirectory = True\<rparr>"
    by code_simp
  have s3: "MemoryFs_stats memory_context ''/a/b/c'' 9 engine_with_file
       = Ok \<lparr>stat_atime = 1, stat_btime = 1, stat_ctime = 1, stat_mtime = 2,
             isFile = False, isDirectory = True\<rparr>"
    by code_simp
  have r: "fst (MemoryFs_read memory_context ''a/b/c/file'' 3 engine_with_file) = Ok ''x''"
    by code_simp
  note w = timestamp_frame [where ctx = memory_context and fs = engine_with_abc
      and p = "''a/b/c/file''" and j = 3 and pp = "''/a/b/c''" and ch = "[]"
      and pst = "fresh_stats 1" and c = "''x''" and opts = no_options and now = 2]
  note f = timestamp_frame [where ctx = memory_context and fs = engine_with_file
      and p = "''a/b/c/file''" and c = "''x''" and now = 3]
  from w a n p have 1: "MemoryFs_write memory_context ''a/b/c/file'' ''x'' no_options 2 engine_with_abc =
        (Ok (),
         engine_with_abc
           \<lparr>index := (index engine_with_abc)
               (resolveWithinJail (jail memory_context) (pwd memory_context) ''a/b/c/file''
                  \<mapsto> length (nodes engine_with_abc)),
            nodes := (nodes engine_with_abc)
                       [3 := Some (FsDirNode ''/a/b/c''
                               (sort ([] @ [resolveWithinJail (jail memory_context)
                                              (pwd memory_context) ''a/b/c/file'']))
                               ((fresh_stats 1)\<lparr>mtime := Some (or_now (timestamp no_options) 2)\<rparr>))]
                     @ [Some (FsFileNode ''x''
                               (resolveWithinJail (jail memory_context) (pwd memory_context)
                                  ''a/b/c/file'')
                               (fresh_stats (or_now (timestamp no_options) 2)))]\<rparr>)"
    by blast
  from f r have 2: "\<exists>i k fp st nk.
         getNode engine_with_file
           (resolveWithinJail (jail memory_context) (pwd memory_context) ''a/b/c/file'')
           = Node i (FsFileNode ''x'' fp st)
         \<and> index engine_with_file (Path_resolve ''/'' (Path_dirname fp)) = Some k
         \<and> k < length (nodes engine_with_file) \<and> nodes engine_with_file ! k = Some nk
         \<and> snd (MemoryFs_read memory_context ''a/b/c/file'' 3 engine_with_file) =
             engine_with_file
               \<lparr>nodes := (nodes engine_with_file)
                            [i := Some (touch_atime 3 (FsFileNode ''x'' fp st)),
                             k := Some (touch_atime 3 nk)]\<rparr>"
    by blast
  from a n p 1 s1 s2 s3 r 2 show ?thesis by (intro conjI)
qed

section \<open>Holes\<close>

text \<open>
  \<open>rm\<close> deletes an array slot and nothing ever closes the hole: \<open>rebuildIndex\<close> throws
  on an array with a hole, so does \<open>parse\<close> on what \<open>toJson\<close> writes for it, and a
  \<open>rm\<close> that removes a file always ends in a throw. Without holes \<open>parse\<close> undoes
  \<open>toJson\<close>.
\<close>

lemma revive_stringify_stats: "revive_stats (stringify_stats st) = st"
  by (simp add: revive_stats_def stringify_stats_def option.map_comp comp_def option.map_ident)

lemma revive_stringify_node: "revive_node (stringify_node n) = n"
  by (cases n) (simp_all add: revive_stringify_stats)

lemma parse_nodes_stringify:
  "None \<notin> set ns \<Longrightarrow> parse_nodes (map (map_option stringify_node) ns) = Some ns"
proof (induction ns)
  case Nil
  then show ?case by simp
next
  case (Cons n ns)
  then show ?case by (cases n) (auto simp: revive_stringify_node)
qed

lemma parse_nodes_hole:
  "None \<in> set ns \<Longrightarrow> parse_nodes (map (map_option stringify_node) ns) = None"
proof (induction ns)
  case Nil
  then show ?case by simp
next
  case (Cons n ns)
  then show ?case by (cases n) (auto split: option.splits)
qed

lemma parse_toJson_without_holes:
  "version fs = ''0.1'' \<Longrightarrow> None \<notin> set (nodes fs) \<Longrightarrow> MemoryFs_parse (toJson fs) = Ok fs"
  by (simp add: MemoryFs_parse_def toJson_def parse_nodes_stringify)

lemma parse_toJson_with_hole:
  "version fs = ''0.1'' \<Longrightarrow> None \<in> set (nodes fs) \<Longrightarrow> MemoryFs_parse (toJson fs) = Thrown"
  by (simp add: MemoryFs_parse_def toJson_def parse_nodes_hole)

lemma rebuildIndex_hole_throws:
  "None \<in> set (nodes fs) \<Longrightarrow> fst (rebuildIndex fs) = Thrown"
  by (auto simp: rebuildIndex_def Let_def filter_empty_conv)

lemma rm_existing_file_throws:
  assumes ic: "index_consistent fs"
    and n: "getNode fs (resolveWithinJail (jail ctx) (pwd ctx) p) = Node i (FsFileNode c fp st)"
    and rb: "rebuildIndexOpt opts \<noteq> Some False"
  shows "fst (MemoryFs_rm (Suc k) ctx p opts now fs) = Thrown"
proof -
  define ts where "ts = or_now (timestamp opts) now"
  from rb have rb': "(case rebuildIndexOpt opts of Some r \<Rightarrow> r | None \<Rightarrow> True) = True"
    by (cases "rebuildIndexOpt opts") auto
  have rm: "MemoryFs_rm (Suc k) ctx p opts now fs = rm_delete (FsFileNode c fp st) p ts True fs"
    using n rb' by (simp add: Let_def ts_def)
  from n have i: "index fs (Path_resolve ''/'' (resolveWithinJail (jail ctx) (pwd ctx) p)) = Some i"
    "i < length (nodes fs)" "nodes fs ! i = Some (FsFileNode c fp st)"
    by (simp_all add: getNode_Node_iff)
  have fp: "index fs fp = Some i"
    using ic i unfolding index_consistent_def by fastforce
  define fs1 where "fs1 = fs\<lparr>nodes := (nodes fs)[i := None]\<rparr>"
  have hole: "nodes fs1 ! i = None" using i(2) by (simp add: fs1_def)
  show ?thesis
  proof (cases "getParent fs1 p")
    case (Node j parent)
    show ?thesis
    proof (cases parent)
      case (FsDirNode pp ch pst)
      have "j \<noteq> i" using Node FsDirNode hole by (auto simp: getParent_def getNode_Node_iff)
      then have "None \<in> set (nodes (put_node j (FsDirNode pp ch (pst\<lparr>mtime := Some ts\<rparr>)) fs1))"
        using i(2) hole by (auto simp: put_node_def fs1_def in_set_conv_nth intro!: exI [of _ i])
      from rebuildIndex_hole_throws [OF this] show ?thesis
        using Node FsDirNode fp unfolding rm fs1_def by (simp add: rm_delete_def Let_def)
    next
      case (FsFileNode c' fp' st')
      then show ?thesis using Node fp unfolding rm fs1_def by (simp add: rm_delete_def Let_def)
    qed
  next
    case Null
    then show ?thesis using fp unfolding rm fs1_def by (simp add: rm_delete_def Let_def)
  next
    case Undefined
    then show ?thesis using fp unfolding rm fs1_def by (simp add: rm_delete_def Let_def)
  qed
qed

lemma engine_after_rm_reachable: "reachable_from_empty engine_after_rm"
  unfolding engine_after_rm_def engine_with_a_def
  by (intro reachable_from_empty.at_rm reachable_from_empty.at_write reachable_from_empty.at_empty)

lemma rmdir_ignores_options:
  "MemoryFs_rmdir k ctx p opts now fs = MemoryFs_rmdir k ctx p opts' now fs"
  by (simp add: MemoryFs_rmdir_def)

lemma rmdir_of_file:
  "getNode fs (resolveWithinJail (jail ctx) (pwd ctx) p) = Node i (FsFileNode c fp st)
   \<Longrightarrow> MemoryFs_rmdir k ctx p opts now fs = (Err PATH_NOT_FOUND, fs)"
  by (simp add: MemoryFs_rmdir_def)

lemma file_store_paths:
  "host_path (file_read home ctx p) = file_resolve home ctx p
   \<and> host_path (file_readdir home ctx p rec) = file_resolve home ctx p
   \<and> host_path (file_mkdir home ctx p rec) = file_resolve home ctx p
   \<and> host_path (file_writeFile home ctx p content) = file_resolve home ctx p
   \<and> host_path (file_stats home ctx p) = file_resolve home ctx p
   \<and> host_path (file_utimes home ctx p st now) = file_resolve home ctx p
   \<and> host_path (file_rm home ctx p rec) = p
   \<and> host_path (file_rmdir home ctx p rec) = p"
  by (simp add: file_read_def file_readdir_def file_mkdir_def file_writeFile_def file_stats_def
      file_utimes_def file_rm_def file_rmdir_def)

section \<open>What the engine and the adapters do on concrete inputs\<close>

text \<open>
  C2. The host adapter's \<open>rm\<close> and \<open>rmdir\<close> compute the jailed path and then hand the
  path argument as given to \<open>FS.rm\<close> and \<open>FS.rmdir\<close>: for the jail \<open>/jail\<close> and the
  argument \<open>/etc/passwd\<close> the host is asked to remove \<open>/etc/passwd\<close>, where \<open>read\<close>
  reads \<open>/jail/etc/passwd\<close>.
\<close>

theorem file_rm_uses_raw_path:
  "host_path (file_rm ''/home/u'' jailed_context ''/etc/passwd'' None) = ''/etc/passwd''
   \<and> host_path (file_rmdir ''/home/u'' jailed_context ''/etc/passwd'' None) = ''/etc/passwd''
   \<and> file_resolve ''/home/u'' jailed_context ''/etc/passwd'' = ''/jail/etc/passwd''
   \<and> host_path (file_read ''/home/u'' jailed_context ''/etc/passwd'') = ''/jail/etc/passwd''"
  by code_simp

text \<open>
  C3. After \<open>write("/a", "x")\<close> and \<open>rm("/a")\<close> the call of \<open>rm\<close> has thrown out of
  \<open>rebuildIndex\<close>, the node is gone, and \<open>readdir("/")\<close> still lists \<open>a\<close>, on which
  \<open>stats\<close> fails.
\<close>

theorem readdir_lists_removed_file:
  "fst (MemoryFs_rm 1 memory_context ''/a'' no_options 2 engine_with_a) = Thrown
   \<and> MemoryFs_readdir memory_context ''/'' engine_after_rm = Ok [''a'']
   \<and> MemoryFs_stats memory_context ''a'' 3 engine_after_rm = Err PATH_NOT_FOUND"
  by code_simp

text \<open>
  C4. \<open>rmdir("/d", {recursive: false})\<close> on the directory \<open>/d\<close> that holds \<open>/d/f\<close>
  removes both nodes (and throws out of \<open>rebuildIndex\<close>); it returns no error.
  With \<open>recursive: true\<close> it does the same. On the file \<open>/d/f\<close> it returns
  \<open>PATH_NOT_FOUND\<close>.
\<close>

theorem rmdir_ignores_recursive_false:
  "MemoryFs_readdir memory_context ''/d'' engine_with_d_f = Ok [''f'']
   \<and> (case MemoryFs_rmdir 2 memory_context ''/d''
              \<lparr>recursive = Some False, timestamp = None, rebuildIndexOpt = None\<rparr> 2 engine_with_d_f of
         (r, fs) \<Rightarrow> r = Thrown
            \<and> MemoryFs_stats memory_context ''/d'' 3 fs = Err PATH_NOT_FOUND
            \<and> MemoryFs_stats memory_context ''/d/f'' 3 fs = Err PATH_NOT_FOUND)
   \<and> fst (MemoryFs_rmdir 2 memory_context ''/d''
              \<lparr>recursive = Some True, timestamp = None, rebuildIndexOpt = None\<rparr> 2 engine_with_d_f)
       = Thrown
   \<and> fst (MemoryFs_rmdir 2 memory_context ''/d/f'' no_options 2 engine_with_d_f)
       = Err PATH_NOT_FOUND"
  by code_simp

text \<open>
  C5. The engine sorts \<open>children\<close> with the default sort of strings: after writing
  \<open>/10\<close>, \<open>/2\<close> and \<open>/1\<close>, \<open>readdir("/")\<close> is \<open>["1", "10", "2"]\<close>. The host adapter's
  sort of the same names is \<open>["1", "2", "10"]\<close>.
\<close>

theorem memory_readdir_not_numeric:
  "MemoryFs_readdir memory_context ''/'' engine_with_numbers = Ok [''1'', ''10'', ''2'']
   \<and> file_readdir_sorted [''10'', ''2'', ''1''] = Some [''1'', ''2'', ''10'']"
  by code_simp

text \<open>
  C7. The engine left by \<open>write("/a", "x")\<close> and \<open>rm("/a")\<close> has a hole in \<open>nodes\<close>;
  \<open>toJson\<close> writes it as \<open>null\<close> and \<open>parse\<close> throws on it.
\<close>

theorem parse_toJson_throws_after_rm:
  "nodes engine_after_rm \<noteq> [] \<and> last (nodes engine_after_rm) = None
   \<and> is_Thrown (MemoryFs_parse (toJson engine_after_rm))"
  by code_simp

text \<open>
  C8. \<open>webStore\<close> reads the slot named \<open>prefix\<close>, whatever its prefix is, and saves
  into the slot named by its prefix: a second \<open>webStore\<close> of prefix \<open>fs\<close> on the
  storage the first one saved into starts from the empty tree.
\<close>

theorem webStore_reload_is_empty:
  "storage_after_write ''fs'' \<noteq> None \<and> storage_after_write ''prefix'' = None
   \<and> (case webStore storage_after_write fs_prefix_options 2 of
         Ok ws \<Rightarrow> fst (web_read (web_context ws) ''/a'' 3 ws) = Err FILE_NOT_FOUND
                  \<and> MemoryFs_readdir (web_context ws) ''/'' (web_memory ws) = Ok []
       | _ \<Rightarrow> False)"
  by code_simp

end
